theory Spec2Isabelle
  imports Complex_Main "HOL-Library.Multiset" "HOL-Library.Word"
begin

unbundle bit_operations_syntax

section \<open>Data model (AdvancedLesson.tsx)\<close>

text \<open>
  JavaScript numbers that hold coordinates and distances are modelled as reals,
  array indices, cluster labels and the parameters \<open>k\<close> and \<open>minPts\<close> as integers.
\<close>

record point =
  x :: real
  y :: real

record labeled_point = point +
  cluster :: int

datatype NormKey = L1 | L2 | Linf

section \<open>Distance helper\<close>

text \<open>\<open>Math.hypot(dx, dy)\<close> is the square root of the sum of the squares.\<close>

definition hypot :: "real \<Rightarrow> real \<Rightarrow> real" where
  "hypot dx dy = sqrt (dx\<^sup>2 + dy\<^sup>2)"

definition calcDistance :: "point \<Rightarrow> point \<Rightarrow> NormKey \<Rightarrow> real" where
  "calcDistance a b nrm =
     (let dx = x a - x b;
          dy = y a - y b
      in case nrm of
           L1 \<Rightarrow> \<bar>dx\<bar> + \<bar>dy\<bar>
         | L2 \<Rightarrow> hypot dx dy
         | Linf \<Rightarrow> max \<bar>dx\<bar> \<bar>dy\<bar>)"

text \<open>
  \<open>calcDistance\<close> above is the exact value of the three norms. The engine
  evaluates the same expressions in double precision, so the number that a call
  \<open>calcDistance(a, b, norm)\<close> returns can differ from it by rounding. The two
  clusterers only compare the numbers that the calls return. They therefore take
  the function \<open>distFn\<close> as a parameter: \<open>distFn a b nrm\<close> stands for the number
  returned by \<open>calcDistance(a, b, norm)\<close>, whatever the arithmetic. Its values
  are of a linearly ordered type, as the doubles other than \<open>NaN\<close> are (for
  finite coordinates no distance is \<open>NaN\<close>), and \<open>eps\<close> is of the same type.
\<close>

section \<open>Density clusterer (AdvancedLesson.tsx, \<open>dbscan\<close>)\<close>

text \<open>
  Reading \<open>labels[i]\<close>: an index outside the array reads \<open>undefined\<close>, here
  \<open>None\<close>, which is different from every number.
\<close>

definition label_at :: "int list \<Rightarrow> nat \<Rightarrow> int option" where
  "label_at labels i = (if i < length labels then Some (labels ! i) else None)"

definition regionQuery ::
  "(point \<Rightarrow> point \<Rightarrow> NormKey \<Rightarrow> 'v::linorder) \<Rightarrow> point list \<Rightarrow> 'v \<Rightarrow> NormKey \<Rightarrow> nat \<Rightarrow> nat list" where
  "regionQuery distFn points eps nrm idx =
     filter (\<lambda>j. distFn (points ! idx) (points ! j) nrm \<le> eps) [0..<length points]"

text \<open>
  The \<open>while (seedSet.length > 0)\<close> loop. \<open>seedSet.shift()\<close> takes the head;
  the filter that selects what is pushed runs before the push, so it sees the
  queue without the shifted element. The cluster counter only ever holds
  \<open>0, 1, 2, \<dots>\<close> and is a natural number here.
\<close>

function expandCluster ::
  "(point \<Rightarrow> point \<Rightarrow> NormKey \<Rightarrow> 'v::linorder) \<Rightarrow> point list \<Rightarrow> 'v \<Rightarrow> int \<Rightarrow> NormKey \<Rightarrow> nat \<Rightarrow> nat list \<Rightarrow> int list
     \<Rightarrow> int list" where
  "expandCluster distFn points eps minPts nrm clusterId [] labels = labels"
| "expandCluster distFn points eps minPts nrm clusterId (current # seedSet) labels =
     (let labels1 = (if label_at labels current = Some (- 1)
                     then labels[current := int clusterId] else labels)
      in if label_at labels1 current \<noteq> Some (- 99)
         then expandCluster distFn points eps minPts nrm clusterId seedSet labels1
         else
           let labels2 = labels1[current := int clusterId];
               currentNeighbors = regionQuery distFn points eps nrm current
           in if minPts \<le> int (length currentNeighbors)
              then expandCluster distFn points eps minPts nrm clusterId
                     (seedSet @ filter (\<lambda>n. n \<notin> set seedSet \<and> label_at labels2 n = Some (- 99))
                                  currentNeighbors)
                     labels2
              else expandCluster distFn points eps minPts nrm clusterId seedSet labels2)"
  by pat_completeness auto

definition unvisited :: "int list \<Rightarrow> nat" where
  "unvisited labels = count (mset labels) (- 99)"

lemma unvisited_promote:
  "unvisited (if label_at labels c = Some (- 1) then labels[c := int cid] else labels)
     = unvisited labels"
  by (auto simp: unvisited_def label_at_def mset_update split: if_splits)

lemma unvisited_visit:
  assumes "label_at labels c = Some (- 99)"
  shows "unvisited (labels[c := int cid]) < unvisited labels"
proof -
  from assms have c: "c < length labels" and l: "labels ! c = - 99"
    by (auto simp: label_at_def split: if_splits)
  then have "- 99 \<in># mset labels"
    by (metis nth_mem set_mset_mset)
  then have "0 < count (mset labels) (- 99)"
    by simp
  with c l show ?thesis
    by (simp add: unvisited_def mset_update)
qed

termination expandCluster
proof (relation "measures [\<lambda>(distFn, points, eps, minPts, nrm, clusterId, seedSet, labels). unvisited labels,
                           \<lambda>(distFn, points, eps, minPts, nrm, clusterId, seedSet, labels). length seedSet]",
       goal_cases)
  case 1
  show ?case by simp
next
  case (2 distFn points eps minPts nrm clusterId current seedSet labels labels1)
  then show ?case
    by (simp add: unvisited_promote)
next
  case (3 distFn points eps minPts nrm clusterId current seedSet labels labels1 labels2 currentNeighbors)
  then have "unvisited labels2 < unvisited labels1"
    by (simp add: unvisited_visit)
  also have "unvisited labels1 = unvisited labels"
    unfolding 3(1) by (rule unvisited_promote)
  finally show ?case
    by simp
next
  case (4 distFn points eps minPts nrm clusterId current seedSet labels labels1 labels2 currentNeighbors)
  then have "unvisited labels2 < unvisited labels1"
    by (simp add: unvisited_visit)
  also have "unvisited labels1 = unvisited labels"
    unfolding 4(1) by (rule unvisited_promote)
  finally show ?case
    by simp
qed

text \<open>One iteration of the outer \<open>for\<close> loop, on the pair \<open>(labels, clusterId)\<close>.\<close>

definition dbscanStep ::
  "(point \<Rightarrow> point \<Rightarrow> NormKey \<Rightarrow> 'v::linorder) \<Rightarrow> point list \<Rightarrow> 'v \<Rightarrow> int \<Rightarrow> NormKey \<Rightarrow> int list \<times> nat \<Rightarrow> nat
     \<Rightarrow> int list \<times> nat" where
  "dbscanStep distFn points eps minPts nrm st i =
     (case st of (labels, clusterId) \<Rightarrow>
        if label_at labels i \<noteq> Some (- 99) then (labels, clusterId)
        else
          let neighbors = regionQuery distFn points eps nrm i
          in if int (length neighbors) < minPts
             then (labels[i := - 1], clusterId)
             else
               let labels' = labels[i := int clusterId];
                   seedSet = filter (\<lambda>n. n \<noteq> i) neighbors
               in (expandCluster distFn points eps minPts nrm clusterId seedSet labels',
                   clusterId + 1))"

definition dbscanLabels ::
  "(point \<Rightarrow> point \<Rightarrow> NormKey \<Rightarrow> 'v::linorder) \<Rightarrow> point list \<Rightarrow> 'v \<Rightarrow> int \<Rightarrow> NormKey \<Rightarrow> int list" where
  "dbscanLabels distFn points eps minPts nrm =
     fst (foldl (dbscanStep distFn points eps minPts nrm)
                (replicate (length points) (- 99), 0)
                [0..<length points])"

definition dbscan ::
  "(point \<Rightarrow> point \<Rightarrow> NormKey \<Rightarrow> 'v::linorder) \<Rightarrow> point list \<Rightarrow> 'v \<Rightarrow> int \<Rightarrow> NormKey \<Rightarrow> labeled_point list" where
  "dbscan distFn points eps minPts nrm =
     (let labels = dbscanLabels distFn points eps minPts nrm
      in map (\<lambda>i. \<lparr>x = x (points ! i), y = y (points ! i), cluster = labels ! i\<rparr>)
             [0..<length points])"

section \<open>Partitioning clusterer (AdvancedLesson.tsx, \<open>kMeans\<close>)\<close>

text \<open>
  The source calls \<open>Math.random()\<close> while it seeds the centroids. The model
  takes the values that these calls return as a sequence \<open>rnd 0, rnd 1, \<dots>\<close>;
  each of them lies in \<open>[0, 1)\<close>.

  \<open>{ ...points[idx] }\<close>: for an index outside the array \<open>points[idx]\<close> is
  \<open>undefined\<close> and the spread yields an object without coordinates. With
  \<open>Math.random()\<close> in \<open>[0, 1)\<close> this happens only when \<open>points\<close> is empty, and
  then no distance to a centroid is ever computed; the model puts the origin in
  its place.
\<close>

definition spread_point :: "point list \<Rightarrow> int \<Rightarrow> point" where
  "spread_point points idx =
     (if 0 \<le> idx \<and> idx < int (length points) then points ! nat idx
      else \<lparr>x = 0, y = 0\<rparr>)"

text \<open>
  The \<open>while (cs.length < k)\<close> loop of the random seeding. It has no bound on
  the number of draws, so the model is a partial function: \<open>None\<close> means that the
  loop does not terminate. The argument \<open>t\<close> counts the draws made so far.
\<close>

partial_function (option) pickCentroids ::
  "point list \<Rightarrow> int \<Rightarrow> (nat \<Rightarrow> real) \<Rightarrow> nat \<Rightarrow> point list \<Rightarrow> int set \<Rightarrow> point list option" where
  "pickCentroids points k rnd t cs seen =
     (if int (length cs) < k
      then let idx = \<lfloor>rnd t * real (length points)\<rfloor>
           in if idx \<notin> seen
              then pickCentroids points k rnd (Suc t) (cs @ [spread_point points idx]) (insert idx seen)
              else pickCentroids points k rnd (Suc t) cs seen
      else Some cs)"

text \<open>
  \<open>Math.min(...dists)\<close> is \<open>Infinity\<close> for an empty array, here \<open>None\<close>;
  \<open>dists.indexOf(v)\<close> scans from index \<open>0\<close> and gives \<open>-1\<close> when \<open>v\<close> does not occur.
\<close>

definition math_min :: "('v::linorder) list \<Rightarrow> 'v option" where
  "math_min ds = (if ds = [] then None else Some (Min (set ds)))"

fun indexOfFrom :: "'v list \<Rightarrow> 'v \<Rightarrow> nat \<Rightarrow> int" where
  "indexOfFrom [] v i = - 1"
| "indexOfFrom (d # ds) v i = (if d = v then int i else indexOfFrom ds v (Suc i))"

definition indexOf :: "'v list \<Rightarrow> 'v \<Rightarrow> int" where
  "indexOf ds v = indexOfFrom ds v 0"

definition nearestIdx :: "(point \<Rightarrow> point \<Rightarrow> NormKey \<Rightarrow> 'v::linorder) \<Rightarrow> point list \<Rightarrow> NormKey \<Rightarrow> point \<Rightarrow> int" where
  "nearestIdx distFn centroids nrm p =
     (let dists = map (\<lambda>c. distFn p c nrm) centroids
      in case math_min dists of
           None \<Rightarrow> - 1
         | Some m \<Rightarrow> indexOf dists m)"

text \<open>The assignment loop over \<open>i\<close>, on the pair \<open>(changed, labels)\<close>.\<close>

definition assignStep ::
  "(point \<Rightarrow> point \<Rightarrow> NormKey \<Rightarrow> 'v::linorder) \<Rightarrow> point list \<Rightarrow> NormKey \<Rightarrow> point list \<Rightarrow> bool \<times> int list \<Rightarrow> nat \<Rightarrow> bool \<times> int list" where
  "assignStep distFn centroids nrm points st i =
     (case st of (changed, labels) \<Rightarrow>
        let minIdx = nearestIdx distFn centroids nrm (points ! i)
        in if label_at labels i \<noteq> Some minIdx
           then (True, labels[i := minIdx])
           else (changed, labels))"

definition assignment ::
  "(point \<Rightarrow> point \<Rightarrow> NormKey \<Rightarrow> 'v::linorder) \<Rightarrow> point list \<Rightarrow> NormKey \<Rightarrow> point list \<Rightarrow> int list \<Rightarrow> bool \<times> int list" where
  "assignment distFn centroids nrm points labels =
     foldl (assignStep distFn centroids nrm points) (False, labels) [0..<length points]"

text \<open>
  The update step. The array \<open>sums\<close> of the source is \<open>sum_arr\<close>; an entry is
  \<open>{x, y, n}\<close>, and the field \<open>n\<close> is called \<open>n_count\<close> here. \<open>sums[lbl]\<close> is
  \<open>undefined\<close> for a label outside \<open>0 \<dots> k-1\<close>, and \<open>sums[lbl].x += p.x\<close> then
  throws a \<open>TypeError\<close>.
\<close>

datatype error = TypeError

record sum_entry = point +
  n_count :: nat

fun sumLoop :: "sum_entry list \<Rightarrow> (int \<times> point) list \<Rightarrow> error + sum_entry list" where
  "sumLoop sum_arr [] = Inr sum_arr"
| "sumLoop sum_arr ((lbl, p) # rest) =
     (if 0 \<le> lbl \<and> lbl < int (length sum_arr)
      then sumLoop
             (sum_arr[nat lbl := \<lparr>x = x (sum_arr ! nat lbl) + x p,
                              y = y (sum_arr ! nat lbl) + y p,
                              n_count = n_count (sum_arr ! nat lbl) + 1\<rparr>])
             rest
      else Inl TypeError)"

text \<open>
  \<open>sums.forEach((s, idx) => { if (s.n > 0) centroids[idx] = ... })\<close>. Both
  arrays have \<open>k\<close> entries, so the write is inside \<open>centroids\<close>.
\<close>

definition moveCentroids :: "point list \<Rightarrow> sum_entry list \<Rightarrow> point list" where
  "moveCentroids centroids sum_arr =
     foldl (\<lambda>cs idx.
              if 0 < n_count (sum_arr ! idx)
              then cs[idx := \<lparr>x = x (sum_arr ! idx) / real (n_count (sum_arr ! idx)),
                              y = y (sum_arr ! idx) / real (n_count (sum_arr ! idx))\<rparr>]
              else cs)
           centroids [0..<length sum_arr]"

text \<open>
  The loop \<open>for (iter = 0; iter < maxIter; iter++)\<close>; the first argument is the
  number of rounds that remain.
\<close>

fun lloyd ::
  "(point \<Rightarrow> point \<Rightarrow> NormKey \<Rightarrow> 'v::linorder) \<Rightarrow> nat \<Rightarrow> point list \<Rightarrow> int \<Rightarrow> NormKey \<Rightarrow> point list \<Rightarrow> int list \<Rightarrow> error + int list" where
  "lloyd distFn 0 points k nrm centroids labels = Inr labels"
| "lloyd distFn (Suc m) points k nrm centroids labels =
     (case assignment distFn centroids nrm points labels of
        (changed, labels') \<Rightarrow>
          if \<not> changed then Inr labels'
          else (case sumLoop (replicate (nat k) \<lparr>x = 0, y = 0, n_count = 0\<rparr>)
                             (zip labels' points) of
                  Inl e \<Rightarrow> Inl e
                | Inr sum_arr \<Rightarrow> lloyd distFn m points k nrm (moveCentroids centroids sum_arr) labels'))"

text \<open>
  The initial centroids: a copy of \<open>initialCentroids\<close> when it is given
  (\<open>None\<close> is \<open>undefined\<close>) and has \<open>k\<close> entries, the random seeding otherwise.
\<close>

definition initCentroids ::
  "point list \<Rightarrow> int \<Rightarrow> point list option \<Rightarrow> (nat \<Rightarrow> real) \<Rightarrow> point list option" where
  "initCentroids points k initialCentroids rnd =
     (case initialCentroids of
        Some ic \<Rightarrow>
          if int (length ic) = k then Some (map (\<lambda>c. \<lparr>x = x c, y = y c\<rparr>) ic)
          else pickCentroids points k rnd 0 [] {}
      | None \<Rightarrow> pickCentroids points k rnd 0 [] {})"

text \<open>
  \<open>kMeans\<close>. The result is \<open>None\<close> when the call does not return,
  \<open>Some (Inl e)\<close> when it throws and \<open>Some (Inr out)\<close> when it returns \<open>out\<close>.
\<close>

definition kMeans ::
  "(point \<Rightarrow> point \<Rightarrow> NormKey \<Rightarrow> 'v::linorder) \<Rightarrow> point list \<Rightarrow> int \<Rightarrow> NormKey \<Rightarrow> point list option \<Rightarrow> (nat \<Rightarrow> real) \<Rightarrow> nat
     \<Rightarrow> (error + labeled_point list) option" where
  "kMeans distFn points k nrm initialCentroids rnd maxIter =
     (if k \<le> 0 then Some (Inr (map (\<lambda>p. \<lparr>x = x p, y = y p, cluster = 0\<rparr>) points))
      else
        case initCentroids points k initialCentroids rnd of
          None \<Rightarrow> None
        | Some centroids \<Rightarrow>
            Some (case lloyd distFn maxIter points k nrm centroids (replicate (length points) 0) of
                    Inl e \<Rightarrow> Inl e
                  | Inr labels \<Rightarrow>
                      Inr (map (\<lambda>i. \<lparr>x = x (points ! i), y = y (points ! i),
                                      cluster = labels ! i\<rparr>)
                               [0..<length points])))"

section \<open>Assignment validator (IntroductoryLesson.tsx)\<close>

text \<open>
  The exercise's point type: the coordinates, the numeric id (field \<open>id\<close> of the
  source), the colour chosen by the learner (\<open>None\<close> is \<open>null\<close>), the hidden
  cluster and the validation flag (\<open>None\<close> is \<open>undefined\<close>).
\<close>

record gen_point = point +
  id_num :: int
  colour :: "string option"
  clusterId :: int
  isCorrect :: "bool option"

text \<open>
  The guard \<open>!p.colour\<close>: JavaScript's negation is true of \<open>null\<close> and of the
  empty string, and false of every other string.
\<close>

definition not_colour :: "string option \<Rightarrow> bool" where
  "not_colour c = (case c of None \<Rightarrow> True | Some s \<Rightarrow> s = [])"

definition sameClusterConsistent :: "gen_point list \<Rightarrow> gen_point \<Rightarrow> bool" where
  "sameClusterConsistent pts p =
     list_all (\<lambda>q. clusterId q \<noteq> clusterId p \<or> colour q = colour p) pts"

definition noOtherClusterSharesColour :: "gen_point list \<Rightarrow> gen_point \<Rightarrow> bool" where
  "noOtherClusterSharesColour pts p =
     list_all (\<lambda>q. clusterId q = clusterId p \<or> colour q \<noteq> colour p) pts"

definition evaluate :: "gen_point list \<Rightarrow> gen_point list \<times> nat" where
  "evaluate pts =
     (let updated =
            map (\<lambda>p. if not_colour (colour p) then p\<lparr>isCorrect := Some False\<rparr>
                     else p\<lparr>isCorrect :=
                            Some (sameClusterConsistent pts p \<and>
                                  noOtherClusterSharesColour pts p)\<rparr>) pts;
          correctCount = length (filter (\<lambda>p. isCorrect p = Some True) updated)
      in (updated, correctCount))"

section \<open>Deterministic point generator (IntroductoryLesson.tsx)\<close>

text \<open>
  The closure returned by \<open>mulberry32(a)\<close>: its only state is the variable \<open>a\<close>.
  \<open>a += 0x6d2b79f5\<close> is an addition of numbers (exact on integers below
  \<open>2^53\<close>); the operators \<open>^\<close>, \<open>|\<close>, \<open>>>>\<close> and \<open>Math.imul\<close> work on the value
  modulo \<open>2^32\<close>, and \<open>>>> 0\<close> reads the result as unsigned.
\<close>

definition mulberry32_next :: "int \<Rightarrow> real \<times> int" where
  "mulberry32_next a =
     (let a' = a + 0x6d2b79f5;
          t0 = (word_of_int a' :: 32 word);
          t1 = (t0 XOR drop_bit 15 t0) * (t0 OR 1);
          t2 = t1 XOR (t1 + (t1 XOR drop_bit 7 t1) * (t1 OR 61))
      in (real (unat (t2 XOR drop_bit 14 t2)) / 4294967296, a'))"

text \<open>
  A random source \<open>rnd: () => number\<close> is either such a closure or
  \<open>Math.random\<close>. As for \<open>kMeans\<close>, \<open>Math.random\<close> is the sequence \<open>ambient\<close> of
  the values it returns, together with the position reached in it.
\<close>

datatype rng = Mulberry32 int | MathRandom nat

definition call_rnd :: "(nat \<Rightarrow> real) \<Rightarrow> rng \<Rightarrow> real \<times> rng" where
  "call_rnd ambient rnd =
     (case rnd of
        Mulberry32 a \<Rightarrow> (case mulberry32_next a of (v, a') \<Rightarrow> (v, Mulberry32 a'))
      | MathRandom t \<Rightarrow> (ambient t, MathRandom (Suc t)))"

text \<open>The value that the \<open>i\<close>-th next call of \<open>rnd\<close> returns.\<close>

fun nth_draw :: "(nat \<Rightarrow> real) \<Rightarrow> rng \<Rightarrow> nat \<Rightarrow> real" where
  "nth_draw ambient rnd 0 = fst (call_rnd ambient rnd)"
| "nth_draw ambient rnd (Suc i) = nth_draw ambient (snd (call_rnd ambient rnd)) i"

definition clamp :: "real \<Rightarrow> real \<Rightarrow> real \<Rightarrow> real" where
  "clamp v mn mx = min (max v mn) mx"

text \<open>
  The search for the nearest centre, used by \<open>runKMeans\<close> and by
  \<open>generatePoints\<close>: \<open>centres.forEach((c, idx) => { ... })\<close> on the pair of the
  best index and the best squared distance so far, which starts as
  \<open>(0, Infinity)\<close>; \<open>None\<close> is \<open>Infinity\<close>.
\<close>

fun closestLoop :: "point \<Rightarrow> point list \<Rightarrow> nat \<Rightarrow> nat \<times> real option \<Rightarrow> nat \<times> real option" where
  "closestLoop p [] idx st = st"
| "closestLoop p (c # cs) idx st =
     (let d = (x p - x c)\<^sup>2 + (y p - y c)\<^sup>2
      in closestLoop p cs (Suc idx)
           (case snd st of
              None \<Rightarrow> (idx, Some d)
            | Some bestD \<Rightarrow> if d < bestD then (idx, Some d) else st))"

definition closestCentre :: "point \<Rightarrow> point list \<Rightarrow> nat" where
  "closestCentre p centres = fst (closestLoop p centres 0 (0, None))"

record bucket =
  sumX :: real
  sumY :: real
  cnt :: nat

text \<open>
  \<open>pts.forEach((p) => { ...; buckets[closest].sumX += p.x; ... })\<close>; a missing
  bucket is \<open>undefined\<close> and the update throws.
\<close>

fun bucketLoop :: "point list \<Rightarrow> bucket list \<Rightarrow> point list \<Rightarrow> error + bucket list" where
  "bucketLoop centres buckets [] = Inr buckets"
| "bucketLoop centres buckets (p # ps) =
     (let closest = closestCentre p centres
      in if closest < length buckets
         then bucketLoop centres
                (buckets[closest := \<lparr>sumX = sumX (buckets ! closest) + x p,
                                     sumY = sumY (buckets ! closest) + y p,
                                     cnt = cnt (buckets ! closest) + 1\<rparr>])
                ps
         else Inl TypeError)"

text \<open>\<open>centres.map((c, i) => buckets[i].cnt ? { ... } : c)\<close>, from index \<open>i\<close> on.\<close>

fun updateCentres :: "bucket list \<Rightarrow> nat \<Rightarrow> point list \<Rightarrow> error + point list" where
  "updateCentres buckets i [] = Inr []"
| "updateCentres buckets i (c # cs) =
     (if i < length buckets
      then (case updateCentres buckets (Suc i) cs of
              Inl e \<Rightarrow> Inl e
            | Inr rest \<Rightarrow>
                Inr ((if cnt (buckets ! i) \<noteq> 0
                      then \<lparr>x = sumX (buckets ! i) / real (cnt (buckets ! i)),
                            y = sumY (buckets ! i) / real (cnt (buckets ! i))\<rparr>
                      else c) # rest))
      else Inl TypeError)"

text \<open>
  The loop \<open>for (t = 0; t < iters; t++)\<close> of \<open>runKMeans\<close>.
  \<open>Array.from({ length: k }, ...)\<close> has no entries for a negative \<open>k\<close>.
\<close>

fun lloydRounds :: "nat \<Rightarrow> point list \<Rightarrow> int \<Rightarrow> point list \<Rightarrow> error + point list" where
  "lloydRounds 0 pts k centres = Inr centres"
| "lloydRounds (Suc t) pts k centres =
     (case bucketLoop centres (replicate (nat k) \<lparr>sumX = 0, sumY = 0, cnt = 0\<rparr>) pts of
        Inl e \<Rightarrow> Inl e
      | Inr buckets \<Rightarrow>
          (case updateCentres buckets 0 centres of
             Inl e \<Rightarrow> Inl e
           | Inr centres' \<Rightarrow> lloydRounds t pts k centres'))"

text \<open>\<open>xs.slice(0, k)\<close>: a negative \<open>k\<close> counts from the end.\<close>

definition slice0 :: "'a list \<Rightarrow> int \<Rightarrow> 'a list" where
  "slice0 xs k = (if 0 \<le> k then take (nat k) xs else take (nat (int (length xs) + k)) xs)"

text \<open>
  \<open>runKMeans\<close>. The order in which \<open>Array.prototype.sort\<close> leaves the array
  under the comparator \<open>() => 0.5 - rnd()\<close> is decided by the JavaScript engine
  and not by this repository. The comparator ignores its arguments, so what the
  engine computes is a function of the array and of the values that the
  comparator returns at its successive calls; this function is the parameter
  \<open>engine_sort\<close>. The parameters \<open>iters\<close> and \<open>rnd\<close> have the defaults \<open>8\<close> and
  \<open>Math.random\<close>; \<open>None\<close> is an omitted argument.
\<close>

definition runKMeans ::
  "((nat \<Rightarrow> real) \<Rightarrow> point list \<Rightarrow> point list) \<Rightarrow> (nat \<Rightarrow> real) \<Rightarrow>
   point list \<Rightarrow> int \<Rightarrow> nat option \<Rightarrow> rng option \<Rightarrow> error + point list" where
  "runKMeans engine_sort ambient pts k iters_arg rnd_arg =
     (let iters = (case iters_arg of None \<Rightarrow> 8 | Some n \<Rightarrow> n);
          rnd = (case rnd_arg of None \<Rightarrow> MathRandom 0 | Some r \<Rightarrow> r);
          centres = map (\<lambda>p. \<lparr>x = x p, y = y p\<rparr>)
                      (slice0 (engine_sort (\<lambda>i. 0.5 - nth_draw ambient rnd i) pts) k)
      in lloydRounds iters pts k centres)"

text \<open>The constants of the generator.\<close>

definition CLUSTER_COUNT :: int where "CLUSTER_COUNT = 3"
definition PULL :: real where "PULL = 0.6"
definition X_MIN :: real where "X_MIN = 50"
definition X_MAX :: real where "X_MAX = 430"
definition Y_MIN :: real where "Y_MIN = 50"
definition Y_MAX :: real where "Y_MAX = 270"

text \<open>
  \<open>Array.from({ length: n }, () => ({ x: rnd() * ..., y: rnd() * ... }))\<close>: two
  calls of \<open>rnd\<close> per point, \<open>x\<close> first. The result is the array and the random
  source after the calls.
\<close>

fun rawPoints :: "(nat \<Rightarrow> real) \<Rightarrow> nat \<Rightarrow> rng \<Rightarrow> point list \<times> rng" where
  "rawPoints ambient 0 rnd = ([], rnd)"
| "rawPoints ambient (Suc n) rnd =
     (case call_rnd ambient rnd of
        (u, rnd1) \<Rightarrow>
          (case call_rnd ambient rnd1 of
             (v, rnd2) \<Rightarrow>
               (case rawPoints ambient n rnd2 of
                  (ps, rnd3) \<Rightarrow>
                    (\<lparr>x = u * (X_MAX - X_MIN) + X_MIN, y = v * (Y_MAX - Y_MIN) + Y_MIN\<rparr> # ps,
                     rnd3))))"

text \<open>
  \<open>raw.map((p, id) => { ... })\<close>, from index \<open>id\<close> on. The variables \<open>id\<close>
  and \<open>cluster\<close> of the source are \<open>idx\<close> and \<open>cluster_idx\<close>;
  \<open>centres[cluster].x\<close> throws when there is no such centre.
\<close>

fun pullPoints :: "point list \<Rightarrow> nat \<Rightarrow> point list \<Rightarrow> error + gen_point list" where
  "pullPoints centres idx [] = Inr []"
| "pullPoints centres idx (p # ps) =
     (let cluster_idx = closestCentre p centres
      in if cluster_idx < length centres
         then
           let cx = x (centres ! cluster_idx);
               cy = y (centres ! cluster_idx)
           in (case pullPoints centres (Suc idx) ps of
                 Inl e \<Rightarrow> Inl e
               | Inr rest \<Rightarrow>
                   Inr (\<lparr>x = clamp (x p + (cx - x p) * PULL) X_MIN X_MAX,
                         y = clamp (y p + (cy - y p) * PULL) Y_MIN Y_MAX,
                         id_num = int idx, colour = None, clusterId = int cluster_idx,
                         isCorrect = None\<rparr> # rest))
         else Inl TypeError)"

text \<open>
  \<open>generatePoints\<close>, with the defaults \<open>n = 10\<close>, \<open>k = CLUSTER_COUNT\<close> and
  \<open>rnd = Math.random\<close> for omitted arguments.
\<close>

definition generatePoints ::
  "((nat \<Rightarrow> real) \<Rightarrow> point list \<Rightarrow> point list) \<Rightarrow> (nat \<Rightarrow> real) \<Rightarrow>
   nat option \<Rightarrow> int option \<Rightarrow> rng option \<Rightarrow> error + gen_point list" where
  "generatePoints engine_sort ambient n_arg k_arg rnd_arg =
     (let n = (case n_arg of None \<Rightarrow> 10 | Some m \<Rightarrow> m);
          k = (case k_arg of None \<Rightarrow> CLUSTER_COUNT | Some j \<Rightarrow> j);
          rnd = (case rnd_arg of None \<Rightarrow> MathRandom 0 | Some r \<Rightarrow> r)
      in case rawPoints ambient n rnd of
           (raw, rnd') \<Rightarrow>
             (case runKMeans engine_sort ambient raw k (Some 8) (Some rnd') of
                Inl e \<Rightarrow> Inl e
              | Inr centres \<Rightarrow> pullPoints centres 0 raw))"

text \<open>
  \<open>generate(n, k, seed)\<close> of the specification:
  \<open>generatePoints(n, k, mulberry32(seed))\<close>, as in the definition of
  \<open>INITIAL_POINTS\<close>.
\<close>

definition generate ::
  "((nat \<Rightarrow> real) \<Rightarrow> point list \<Rightarrow> point list) \<Rightarrow> (nat \<Rightarrow> real) \<Rightarrow>
   nat \<Rightarrow> int \<Rightarrow> int \<Rightarrow> error + gen_point list" where
  "generate engine_sort ambient n k seed =
     generatePoints engine_sort ambient (Some n) (Some k) (Some (Mulberry32 seed))"

definition INITIAL_POINTS ::
  "((nat \<Rightarrow> real) \<Rightarrow> point list \<Rightarrow> point list) \<Rightarrow> (nat \<Rightarrow> real) \<Rightarrow> error + gen_point list" where
  "INITIAL_POINTS engine_sort ambient =
     generatePoints engine_sort ambient (Some 10) (Some CLUSTER_COUNT) (Some (Mulberry32 20250423))"

text \<open>Predicates used to state the invariants of the two loops.\<close>

definition label_range :: "int list \<Rightarrow> bool" where
  "label_range labels = (\<forall>l\<in>set labels. l = - 99 \<or> - 1 \<le> l)"

definition scanned :: "nat \<Rightarrow> nat \<Rightarrow> int list \<Rightarrow> bool" where
  "scanned n m labels \<longleftrightarrow>
     length labels = n \<and> label_range labels \<and> (\<forall>j<m. j < n \<longrightarrow> labels ! j \<noteq> - 99)"

definition isolated :: "(point \<Rightarrow> point \<Rightarrow> NormKey \<Rightarrow> 'v::linorder) \<Rightarrow> point list \<Rightarrow> 'v \<Rightarrow> NormKey \<Rightarrow> nat \<Rightarrow> bool" where
  "isolated distFn points eps nrm i \<longleftrightarrow>
     (\<forall>j<length points. j \<noteq> i \<longrightarrow>
        eps < distFn (points ! i) (points ! j) nrm \<and> eps < distFn (points ! j) (points ! i) nrm)"

section \<open>The caller's store\<close>

text \<open>
  Arrays and objects are shared by reference between the caller and the three
  functions. To state what a call does to the caller's data, the store is a
  list of cells and an address is a position in it. A cell is an object of one
  of the record types, or an array: of addresses (\<open>Point[]\<close>, \<open>LabeledPoint[]\<close>,
  the array \<open>sums\<close>), of numbers (\<open>labels\<close>) or of indices (\<open>neighbors\<close>,
  \<open>seedSet\<close>); \<open>IndexSet\<close> is the \<open>Set<number>\<close> of the random seeding.
\<close>

datatype cell =
    PointObj point
  | LabeledPointObj labeled_point
  | GenPointObj gen_point
  | SumObj sum_entry
  | RefArray "nat list"
  | NumArray "int list"
  | IndexArray "nat list"
  | IndexSet "int set"

type_synonym store = "cell list"

text \<open>
  Creating an object or an array appends a cell; its address is the length of
  the store before. Every assignment to an element or a field, every \<open>push\<close>
  and every \<open>shift\<close> of the source replaces the cell at the address of the array
  or object that it writes to (\<open>h[a := c]\<close>).
\<close>

definition alloc :: "store \<Rightarrow> cell \<Rightarrow> store \<times> nat" where
  "alloc h c = (h @ [c], length h)"

definition cell_at :: "store \<Rightarrow> nat \<Rightarrow> cell option" where
  "cell_at h a = (if a < length h then Some (h ! a) else None)"

text \<open>
  Reading through an address. An address that holds a cell of another kind is
  outside the static type of the variable; the readers give an empty array or
  the origin there.
\<close>

definition refs_at :: "store \<Rightarrow> nat \<Rightarrow> nat list" where
  "refs_at h a = (case cell_at h a of Some (RefArray rs) \<Rightarrow> rs | _ \<Rightarrow> [])"

definition nums_at :: "store \<Rightarrow> nat \<Rightarrow> int list" where
  "nums_at h a = (case cell_at h a of Some (NumArray ns) \<Rightarrow> ns | _ \<Rightarrow> [])"


definition set_at :: "store \<Rightarrow> nat \<Rightarrow> int set" where
  "set_at h a = (case cell_at h a of Some (IndexSet js) \<Rightarrow> js | _ \<Rightarrow> {})"

definition point_at :: "store \<Rightarrow> nat \<Rightarrow> point" where
  "point_at h a = (case cell_at h a of Some (PointObj p) \<Rightarrow> p | _ \<Rightarrow> \<lparr>x = 0, y = 0\<rparr>)"

definition sum_at :: "store \<Rightarrow> nat \<Rightarrow> sum_entry" where
  "sum_at h a =
     (case cell_at h a of Some (SumObj s) \<Rightarrow> s | _ \<Rightarrow> \<lparr>x = 0, y = 0, n_count = 0\<rparr>)"


text \<open>\<open>points[i]\<close>, read in the store \<open>h\<close>: first the array, then the object.\<close>

definition elem :: "store \<Rightarrow> nat \<Rightarrow> nat \<Rightarrow> point" where
  "elem h points_ref i =
     (if i < length (refs_at h points_ref) then point_at h (refs_at h points_ref ! i)
      else \<lparr>x = 0, y = 0\<rparr>)"

text \<open>
  What the caller passes and what it gets back: \<open>read_list sel h a\<close> is the
  sequence of objects of an array at \<open>a\<close>, and \<open>None\<close> when \<open>a\<close> is not the
  address of an array of such objects.
\<close>

definition read_array :: "store \<Rightarrow> nat \<Rightarrow> nat list option" where
  "read_array h a =
     (if a < length h then (case h ! a of RefArray refs \<Rightarrow> Some refs | _ \<Rightarrow> None) else None)"

fun as_point :: "cell \<Rightarrow> point option" where
  "as_point (PointObj p) = Some p"
| "as_point _ = None"

fun as_labeled :: "cell \<Rightarrow> labeled_point option" where
  "as_labeled (LabeledPointObj p) = Some p"
| "as_labeled _ = None"


definition read_list :: "(cell \<Rightarrow> 'a option) \<Rightarrow> store \<Rightarrow> nat \<Rightarrow> 'a list option" where
  "read_list sel h a =
     (case read_array h a of
        None \<Rightarrow> None
      | Some refs \<Rightarrow> those (map (\<lambda>r. if r < length h then sel (h ! r) else None) refs))"

text \<open>
  The three kinds of write. \<open>labels[i] = v\<close> is only executed with \<open>i\<close> below
  \<open>labels.length\<close>: \<open>i\<close> is a loop index below \<open>points.length\<close> or an index that
  \<open>regionQuery\<close> has returned.
\<close>

definition setLabel :: "store \<Rightarrow> nat \<Rightarrow> nat \<Rightarrow> int \<Rightarrow> store" where
  "setLabel h labels_ref i v = h[labels_ref := NumArray ((nums_at h labels_ref)[i := v])]"


definition push_ref :: "store \<Rightarrow> nat \<Rightarrow> nat \<Rightarrow> store" where
  "push_ref h arr r = h[arr := RefArray (refs_at h arr @ [r])]"

section \<open>The density clusterer on the store\<close>





text \<open>
  \<open>points.map((p, i) => ({ ...p, cluster: labels[i] }))\<close>, and with
  \<open>labels_ref = None\<close> the \<open>points.map((p) => ({ ...p, cluster: 0 }))\<close> of
  \<open>kMeans\<close>: a new array, and for each index a new object with the coordinates
  read from \<open>points[i]\<close>.
\<close>

fun mapLabeledLoop :: "store \<Rightarrow> nat \<Rightarrow> nat option \<Rightarrow> nat \<Rightarrow> nat list \<Rightarrow> store" where
  "mapLabeledLoop h points_ref labels_ref result [] = h"
| "mapLabeledLoop h points_ref labels_ref result (i # rest) =
     (case alloc h
             (LabeledPointObj
                \<lparr>x = x (elem h points_ref i), y = y (elem h points_ref i),
                 cluster = (case labels_ref of None \<Rightarrow> 0 | Some l \<Rightarrow> nums_at h l ! i)\<rparr>) of
        (h1, r) \<Rightarrow> mapLabeledLoop (push_ref h1 result r) points_ref labels_ref result rest)"

definition mapLabeled_store :: "store \<Rightarrow> nat \<Rightarrow> nat option \<Rightarrow> store \<times> nat" where
  "mapLabeled_store h points_ref labels_ref =
     (case alloc h (RefArray []) of
        (h1, result) \<Rightarrow>
          (mapLabeledLoop h1 points_ref labels_ref result [0..<length (refs_at h1 points_ref)],
           result))"


section \<open>The partitioning clusterer on the store\<close>

text \<open>\<open>initialCentroids.map((c) => ({ ...c }))\<close>.\<close>

fun copyLoop :: "store \<Rightarrow> nat \<Rightarrow> nat \<Rightarrow> nat list \<Rightarrow> store" where
  "copyLoop h src result [] = h"
| "copyLoop h src result (i # rest) =
     (case alloc h (PointObj \<lparr>x = x (elem h src i), y = y (elem h src i)\<rparr>) of
        (h1, c) \<Rightarrow> copyLoop (push_ref h1 result c) src result rest)"

definition copyPoints_store :: "store \<Rightarrow> nat \<Rightarrow> store \<times> nat" where
  "copyPoints_store h src =
     (case alloc h (RefArray []) of
        (h1, result) \<Rightarrow> (copyLoop h1 src result [0..<length (refs_at h1 src)], result))"

text \<open>
  The random seeding. \<open>draw t\<close> is the index that the \<open>t\<close>-th evaluation of
  \<open>Math.floor(Math.random() * points.length)\<close> yields; taking the indices
  themselves keeps the rounding of the product out of the model. For a
  non-empty \<open>points\<close> they lie in \<open>0 \<dots> points.length - 1\<close>, and they are all \<open>0\<close>
  when \<open>points\<close> is empty. The loop has no bound on the number of draws, so the
  function is partial. \<open>{ ...points[idx] }\<close> of an index outside the array is an
  object without coordinates, as in \<open>spread_point\<close>.
\<close>

definition spread_elem :: "store \<Rightarrow> nat \<Rightarrow> int \<Rightarrow> point" where
  "spread_elem h points_ref idx =
     (if 0 \<le> idx then elem h points_ref (nat idx) else \<lparr>x = 0, y = 0\<rparr>)"

partial_function (option) pickCentroids_store ::
  "(nat \<Rightarrow> int) \<Rightarrow> store \<Rightarrow> nat \<Rightarrow> int \<Rightarrow> nat \<Rightarrow> nat \<Rightarrow> nat \<Rightarrow> store option" where
  "pickCentroids_store draw h points_ref k t cs seen =
     (if int (length (refs_at h cs)) < k
      then let idx = draw t
           in if idx \<notin> set_at h seen
              then
                let h1 = h[seen := IndexSet (insert idx (set_at h seen))]
                in case alloc h1 (PointObj (spread_elem h1 points_ref idx)) of
                     (h2, c) \<Rightarrow>
                       pickCentroids_store draw (push_ref h2 cs c) points_ref k (Suc t) cs seen
              else pickCentroids_store draw h points_ref k (Suc t) cs seen
      else Some h)"

definition seedCentroids_store ::
  "(nat \<Rightarrow> int) \<Rightarrow> store \<Rightarrow> nat \<Rightarrow> int \<Rightarrow> (store \<times> nat) option" where
  "seedCentroids_store draw h points_ref k =
     (case alloc h (RefArray []) of
        (h1, cs) \<Rightarrow>
          (case alloc h1 (IndexSet {}) of
             (h2, seen) \<Rightarrow>
               (case pickCentroids_store draw h2 points_ref k 0 cs seen of
                  None \<Rightarrow> None
                | Some h3 \<Rightarrow> Some (h3, cs))))"

text \<open>
  The argument \<open>initialCentroids\<close> is the address of the caller's array, or
  \<open>None\<close> for \<open>undefined\<close>. It may be the array \<open>points\<close> itself.
\<close>

definition initCentroids_store ::
  "(nat \<Rightarrow> int) \<Rightarrow> store \<Rightarrow> nat \<Rightarrow> int \<Rightarrow> nat option \<Rightarrow> (store \<times> nat) option" where
  "initCentroids_store draw h points_ref k initialCentroids =
     (case initialCentroids of
        Some ic \<Rightarrow>
          if int (length (refs_at h ic)) = k then Some (copyPoints_store h ic)
          else seedCentroids_store draw h points_ref k
      | None \<Rightarrow> seedCentroids_store draw h points_ref k)"

text \<open>
  The assignment loop writes \<open>labels[i]\<close>. The array \<open>dists\<close> is built and read
  within one pass and holds numbers only; it stays a value, as in
  \<open>nearestIdx\<close>. The centroids are read through the array at \<open>centroids\<close>.
\<close>

fun assignLoop_store ::
  "(point \<Rightarrow> point \<Rightarrow> NormKey \<Rightarrow> 'v::linorder) \<Rightarrow> store \<Rightarrow> nat \<Rightarrow> NormKey \<Rightarrow> nat \<Rightarrow> nat \<Rightarrow> nat list
     \<Rightarrow> bool \<Rightarrow> store \<times> bool" where
  "assignLoop_store distFn h points_ref nrm centroids labels_ref [] changed = (h, changed)"
| "assignLoop_store distFn h points_ref nrm centroids labels_ref (i # rest) changed =
     (let minIdx = nearestIdx distFn (map (point_at h) (refs_at h centroids)) nrm
                     (elem h points_ref i)
      in if label_at (nums_at h labels_ref) i \<noteq> Some minIdx
         then assignLoop_store distFn (setLabel h labels_ref i minIdx) points_ref nrm centroids
                labels_ref rest True
         else assignLoop_store distFn h points_ref nrm centroids labels_ref rest changed)"

text \<open>\<open>Array.from({ length: k }, () => ({ x: 0, y: 0, n: 0 }))\<close>.\<close>

fun newSumsLoop :: "store \<Rightarrow> nat \<Rightarrow> nat \<Rightarrow> store" where
  "newSumsLoop h sums_ref 0 = h"
| "newSumsLoop h sums_ref (Suc m) =
     (case alloc h (SumObj \<lparr>x = 0, y = 0, n_count = 0\<rparr>) of
        (h1, s) \<Rightarrow> newSumsLoop (push_ref h1 sums_ref s) sums_ref m)"

definition newSums_store :: "store \<Rightarrow> int \<Rightarrow> store \<times> nat" where
  "newSums_store h k =
     (case alloc h (RefArray []) of
        (h1, sums_ref) \<Rightarrow> (newSumsLoop h1 sums_ref (nat k), sums_ref))"

text \<open>
  \<open>labels.forEach((lbl, idx) => { ... sums[lbl].x += p.x; ... })\<close> writes the
  fields of the object \<open>sums[lbl]\<close>, and throws when there is no such object.
\<close>

fun sumLoop_store :: "store \<Rightarrow> nat \<Rightarrow> nat \<Rightarrow> nat \<Rightarrow> nat list \<Rightarrow> error + store" where
  "sumLoop_store h points_ref labels_ref sums_ref [] = Inr h"
| "sumLoop_store h points_ref labels_ref sums_ref (idx # rest) =
     (let lbl = nums_at h labels_ref ! idx;
          p = elem h points_ref idx
      in if 0 \<le> lbl \<and> lbl < int (length (refs_at h sums_ref))
         then
           let s = refs_at h sums_ref ! nat lbl;
               e = sum_at h s
           in sumLoop_store
                (h[s := SumObj \<lparr>x = x e + x p, y = y e + y p, n_count = n_count e + 1\<rparr>])
                points_ref labels_ref sums_ref rest
         else Inl TypeError)"

text \<open>
  \<open>sums.forEach((s, idx) => { if (s.n > 0) centroids[idx] = { ... } })\<close>
  creates the new centroid and writes its address into the array \<open>centroids\<close>;
  \<open>idx\<close> is below \<open>k\<close>, the length of both arrays.
\<close>

fun moveLoop_store :: "store \<Rightarrow> nat \<Rightarrow> nat \<Rightarrow> nat list \<Rightarrow> store" where
  "moveLoop_store h centroids sums_ref [] = h"
| "moveLoop_store h centroids sums_ref (idx # rest) =
     (let s = sum_at h (refs_at h sums_ref ! idx)
      in if 0 < n_count s
         then
           case alloc h (PointObj \<lparr>x = x s / real (n_count s), y = y s / real (n_count s)\<rparr>) of
             (h1, c) \<Rightarrow>
               moveLoop_store (h1[centroids := RefArray ((refs_at h1 centroids)[idx := c])])
                 centroids sums_ref rest
         else moveLoop_store h centroids sums_ref rest)"

fun lloyd_store ::
  "(point \<Rightarrow> point \<Rightarrow> NormKey \<Rightarrow> 'v::linorder) \<Rightarrow> nat \<Rightarrow> store \<Rightarrow> nat \<Rightarrow> int \<Rightarrow> NormKey \<Rightarrow> nat \<Rightarrow> nat
     \<Rightarrow> error + store" where
  "lloyd_store distFn 0 h points_ref k nrm centroids labels_ref = Inr h"
| "lloyd_store distFn (Suc m) h points_ref k nrm centroids labels_ref =
     (case assignLoop_store distFn h points_ref nrm centroids labels_ref
             [0..<length (refs_at h points_ref)] False of
        (h1, changed) \<Rightarrow>
          if \<not> changed then Inr h1
          else
            case newSums_store h1 k of
              (h2, sums_ref) \<Rightarrow>
                (case sumLoop_store h2 points_ref labels_ref sums_ref
                        [0..<length (nums_at h2 labels_ref)] of
                   Inl e \<Rightarrow> Inl e
                 | Inr h3 \<Rightarrow>
                     lloyd_store distFn m
                       (moveLoop_store h3 centroids sums_ref [0..<length (refs_at h3 sums_ref)])
                       points_ref k nrm centroids labels_ref))"

text \<open>
  \<open>kMeans\<close>: \<open>None\<close> when the call does not return, \<open>Some (Inl e)\<close> when it
  throws, and \<open>Some (Inr (h', a'))\<close> when it returns the array at \<open>a'\<close> and leaves
  the store \<open>h'\<close>.
\<close>

definition kMeans_store ::
  "(point \<Rightarrow> point \<Rightarrow> NormKey \<Rightarrow> 'v::linorder) \<Rightarrow> (nat \<Rightarrow> int) \<Rightarrow> store \<Rightarrow> nat \<Rightarrow> int \<Rightarrow> NormKey
     \<Rightarrow> nat option \<Rightarrow> nat \<Rightarrow> (error + store \<times> nat) option" where
  "kMeans_store distFn draw h points_ref k nrm initialCentroids maxIter =
     (if k \<le> 0 then Some (Inr (mapLabeled_store h points_ref None))
      else
        case initCentroids_store draw h points_ref k initialCentroids of
          None \<Rightarrow> None
        | Some (h1, centroids) \<Rightarrow>
            (case alloc h1 (NumArray (replicate (length (refs_at h1 points_ref)) 0)) of
               (h2, labels_ref) \<Rightarrow>
                 Some (case lloyd_store distFn maxIter h2 points_ref k nrm centroids labels_ref of
                         Inl e \<Rightarrow> Inl e
                       | Inr h3 \<Rightarrow> Inr (mapLabeled_store h3 points_ref (Some labels_ref)))))"

section \<open>The validator on the store\<close>




section \<open>What a call leaves in the store\<close>

text \<open>
  \<open>keeps h h'\<close>: every cell of the store \<open>h\<close> is still there, unchanged, in \<open>h'\<close>.
  \<open>fresh_result h h' a'\<close>: moreover the array at \<open>a'\<close> and all its elements are
  cells that did not exist in \<open>h\<close>. The other two predicates compare the point
  data position by position.
\<close>

definition keeps :: "store \<Rightarrow> store \<Rightarrow> bool" where
  "keeps h0 h \<longleftrightarrow> take (length h0) h = h0"

definition fresh_result :: "store \<Rightarrow> store \<Rightarrow> nat \<Rightarrow> bool" where
  "fresh_result h h' a' \<longleftrightarrow>
     keeps h h' \<and> length h \<le> a' \<and>
     (case read_array h' a' of
        None \<Rightarrow> False
      | Some refs \<Rightarrow> list_all (\<lambda>r. length h \<le> r) refs)"

definition same_coords :: "point list \<Rightarrow> labeled_point list \<Rightarrow> bool" where
  "same_coords points out \<longleftrightarrow>
     length out = length points \<and>
     (\<forall>i<length points. x (out ! i) = x (points ! i) \<and> y (out ! i) = y (points ! i))"


text \<open>
  Invariants of the loops. \<open>holds h0 h arr mk vs\<close>: the array at \<open>arr\<close> was
  created after \<open>h0\<close> and so were its elements, which are the objects \<open>mk v\<close> for
  the values \<open>vs\<close>. \<open>working h0 h labels_ref centroids n m\<close>: the arrays \<open>labels\<close>
  and \<open>centroids\<close> were created after \<open>h0\<close> and have \<open>n\<close> and \<open>m\<close> entries.
  \<open>validated pts p\<close> is the object that the validator creates for \<open>p\<close>.
\<close>

definition holds :: "store \<Rightarrow> store \<Rightarrow> nat \<Rightarrow> ('a \<Rightarrow> cell) \<Rightarrow> 'a list \<Rightarrow> bool" where
  "holds h0 h arr mk vs \<longleftrightarrow>
     keeps h0 h \<and> length h0 \<le> arr \<and>
     (\<exists>refs. cell_at h arr = Some (RefArray refs) \<and>
        list_all2 (\<lambda>r v. length h0 \<le> r \<and> r \<noteq> arr \<and> cell_at h r = Some (mk v)) refs vs)"

definition working :: "store \<Rightarrow> store \<Rightarrow> nat \<Rightarrow> nat \<Rightarrow> nat \<Rightarrow> nat \<Rightarrow> bool" where
  "working h0 h labels_ref centroids n m \<longleftrightarrow>
     keeps h0 h \<and> length h0 \<le> labels_ref \<and> length h0 \<le> centroids \<and> labels_ref \<noteq> centroids \<and>
     (\<exists>labels. cell_at h labels_ref = Some (NumArray labels) \<and> length labels = n) \<and>
     (\<exists>refs. cell_at h centroids = Some (RefArray refs) \<and> length refs = m)"


section \<open>Properties of the distance helper\<close>

lemma hypot_ge_abs_fst: "\<bar>dx\<bar> \<le> hypot dx dy"
  unfolding hypot_def by (rule real_sqrt_ge_abs1)

lemma hypot_ge_abs_snd: "\<bar>dy\<bar> \<le> hypot dx dy"
  unfolding hypot_def by (rule real_sqrt_ge_abs2)

lemma hypot_le_abs_sum: "hypot dx dy \<le> \<bar>dx\<bar> + \<bar>dy\<bar>"
proof -
  have "dx\<^sup>2 + dy\<^sup>2 \<le> (\<bar>dx\<bar> + \<bar>dy\<bar>)\<^sup>2"
    by (simp add: power2_sum)
  then have "sqrt (dx\<^sup>2 + dy\<^sup>2) \<le> sqrt ((\<bar>dx\<bar> + \<bar>dy\<bar>)\<^sup>2)"
    by (rule real_sqrt_le_mono)
  then show ?thesis
    unfolding hypot_def by simp
qed

lemma hypot_commute_sign: "hypot (a - b) (c - d) = hypot (b - a) (d - c)"
  unfolding hypot_def by (simp add: power2_commute)

lemma hypot_eq_0_iff: "hypot dx dy = 0 \<longleftrightarrow> dx = 0 \<and> dy = 0"
  unfolding hypot_def by (simp add: sum_power2_eq_zero_iff)

text \<open>
  Claim C7. For every pair of 2D points the three distances are ordered:
  Chebyshev (\<open>Linf\<close>) is at most Euclidean (\<open>L2\<close>), which is at most
  Manhattan (\<open>L1\<close>).
\<close>

theorem calcDistance_norm_ordering:
  "calcDistance a b Linf \<le> calcDistance a b L2 \<and>
   calcDistance a b L2 \<le> calcDistance a b L1"
  by (simp add: calcDistance_def Let_def hypot_ge_abs_fst hypot_ge_abs_snd hypot_le_abs_sum)

text \<open>
  Claim C8. For every metric kind and all points the distance is defined (the
  function is total), it is symmetric, and it is zero exactly when the two points
  have the same coordinates.
\<close>

theorem calcDistance_symmetric_zero_iff:
  "calcDistance a b m = calcDistance b a m \<and>
   (calcDistance a b m = 0 \<longleftrightarrow> a = b)"
proof (cases m)
  case L1
  then show ?thesis
    by (auto simp: calcDistance_def Let_def point.equality)
next
  case L2
  then show ?thesis
    by (auto simp: calcDistance_def Let_def hypot_commute_sign hypot_eq_0_iff point.equality)
next
  case Linf
  then show ?thesis
    by (auto simp: calcDistance_def Let_def max_def point.equality)
qed

section \<open>Properties of the validator\<close>

lemma evaluate_length: "length (fst (evaluate pts)) = length pts"
  by (simp add: evaluate_def Let_def)

lemma evaluate_nth_isCorrect:
  assumes "i < length pts"
  shows "isCorrect (fst (evaluate pts) ! i) =
           Some (\<not> not_colour (colour (pts ! i)) \<and>
                 sameClusterConsistent pts (pts ! i) \<and>
                 noOtherClusterSharesColour pts (pts ! i))"
  using assms by (simp add: evaluate_def Let_def)

lemma sameClusterConsistent_others:
  assumes "i < length pts"
  shows "sameClusterConsistent pts (pts ! i) \<longleftrightarrow>
           (\<forall>j<length pts. j \<noteq> i \<and> clusterId (pts ! j) = clusterId (pts ! i)
                \<longrightarrow> colour (pts ! j) = colour (pts ! i))"
  unfolding sameClusterConsistent_def list_all_length by auto

lemma noOtherClusterSharesColour_others:
  "noOtherClusterSharesColour pts p \<longleftrightarrow>
     (\<forall>j<length pts. clusterId (pts ! j) \<noteq> clusterId p
          \<longrightarrow> colour (pts ! j) \<noteq> colour p)"
  unfolding noOtherClusterSharesColour_def list_all_length by auto

lemma evaluate_count:
  "snd (evaluate pts) =
     card {i. i < length pts \<and> isCorrect (fst (evaluate pts) ! i) = Some True}"
proof -
  have "snd (evaluate pts) =
          length (filter (\<lambda>p. isCorrect p = Some True) (fst (evaluate pts)))"
    by (simp add: evaluate_def Let_def)
  also have "\<dots> = card {i. i < length (fst (evaluate pts)) \<and>
                              isCorrect (fst (evaluate pts) ! i) = Some True}"
    by (rule length_filter_conv_card)
  finally show ?thesis
    by (simp only: evaluate_length)
qed

text \<open>
  Claim C1, as amended. The validator returns one point per input point, each
  with \<open>isCorrect\<close> set. The point at position \<open>i\<close> is marked correct if and only
  if its colour is neither \<open>null\<close> nor the empty string, every other point of
  its cluster has the same colour, and no point of another cluster has that
  colour. A point whose colour is \<open>null\<close> is marked incorrect, and the returned
  count is the number of points marked correct.
\<close>

theorem evaluate_marks_correct_iff:
  "length (fst (evaluate pts)) = length pts \<and>
   (\<forall>i<length pts.
      isCorrect (fst (evaluate pts) ! i) =
        Some (colour (pts ! i) \<noteq> None \<and> colour (pts ! i) \<noteq> Some [] \<and>
              (\<forall>j<length pts. j \<noteq> i \<and> clusterId (pts ! j) = clusterId (pts ! i)
                   \<longrightarrow> colour (pts ! j) = colour (pts ! i)) \<and>
              (\<forall>j<length pts. clusterId (pts ! j) \<noteq> clusterId (pts ! i)
                   \<longrightarrow> colour (pts ! j) \<noteq> colour (pts ! i)))) \<and>
   (\<forall>i<length pts. colour (pts ! i) = None
        \<longrightarrow> isCorrect (fst (evaluate pts) ! i) = Some False) \<and>
   snd (evaluate pts) =
     card {i. i < length pts \<and> isCorrect (fst (evaluate pts) ! i) = Some True}"
proof (intro conjI allI impI)
  show "length (fst (evaluate pts)) = length pts"
    by (rule evaluate_length)
next
  fix i assume i: "i < length pts"
  have nc: "\<not> not_colour (colour (pts ! i)) \<longleftrightarrow>
              colour (pts ! i) \<noteq> None \<and> colour (pts ! i) \<noteq> Some []"
    by (simp add: not_colour_def split: option.split)
  show "isCorrect (fst (evaluate pts) ! i) =
        Some (colour (pts ! i) \<noteq> None \<and> colour (pts ! i) \<noteq> Some [] \<and>
              (\<forall>j<length pts. j \<noteq> i \<and> clusterId (pts ! j) = clusterId (pts ! i)
                   \<longrightarrow> colour (pts ! j) = colour (pts ! i)) \<and>
              (\<forall>j<length pts. clusterId (pts ! j) \<noteq> clusterId (pts ! i)
                   \<longrightarrow> colour (pts ! j) \<noteq> colour (pts ! i)))"
    unfolding evaluate_nth_isCorrect [OF i] nc
      sameClusterConsistent_others [OF i] noOtherClusterSharesColour_others
    by simp
next
  fix i assume i: "i < length pts" and c: "colour (pts ! i) = None"
  show "isCorrect (fst (evaluate pts) ! i) = Some False"
    by (simp add: evaluate_nth_isCorrect [OF i] c not_colour_def)
next
  show "snd (evaluate pts) =
     card {i. i < length pts \<and> isCorrect (fst (evaluate pts) ! i) = Some True}"
    by (rule evaluate_count)
qed

theorem evaluate_marks_correct_iff_witness:
  "isCorrect (fst (evaluate
      [\<lparr>x = 60, y = 70, id_num = 0, colour = Some ''#e74c3c'', clusterId = 0, isCorrect = None\<rparr>,
       \<lparr>x = 65, y = 72, id_num = 1, colour = Some ''#e74c3c'', clusterId = 0, isCorrect = None\<rparr>,
       \<lparr>x = 300, y = 200, id_num = 2, colour = Some ''#f1c40f'', clusterId = 1, isCorrect = None\<rparr>]) ! 0)
     = Some True \<and>
   snd (evaluate
      [\<lparr>x = 60, y = 70, id_num = 0, colour = Some ''#e74c3c'', clusterId = 0, isCorrect = None\<rparr>,
       \<lparr>x = 65, y = 72, id_num = 1, colour = Some ''#e74c3c'', clusterId = 0, isCorrect = None\<rparr>,
       \<lparr>x = 300, y = 200, id_num = 2, colour = Some ''#f1c40f'', clusterId = 1, isCorrect = None\<rparr>])
     = 3"
proof -
  let ?pts =
     "[\<lparr>x = 60, y = 70, id_num = 0, colour = Some ''#e74c3c'', clusterId = 0, isCorrect = None\<rparr>,
       \<lparr>x = 65, y = 72, id_num = 1, colour = Some ''#e74c3c'', clusterId = 0, isCorrect = None\<rparr>,
       \<lparr>x = 300, y = 200, id_num = 2, colour = Some ''#f1c40f'', clusterId = 1, isCorrect = None\<rparr>]"
  note main = evaluate_marks_correct_iff [of ?pts]
  have len: "(0::nat) < length ?pts"
    by simp
  from main len have "isCorrect (fst (evaluate ?pts) ! 0) =
        Some (colour (?pts ! 0) \<noteq> None \<and> colour (?pts ! 0) \<noteq> Some [] \<and>
              (\<forall>j<length ?pts. j \<noteq> 0 \<and> clusterId (?pts ! j) = clusterId (?pts ! 0)
                   \<longrightarrow> colour (?pts ! j) = colour (?pts ! 0)) \<and>
              (\<forall>j<length ?pts. clusterId (?pts ! j) \<noteq> clusterId (?pts ! 0)
                   \<longrightarrow> colour (?pts ! j) \<noteq> colour (?pts ! 0)))"
    by blast
  then have first: "isCorrect (fst (evaluate ?pts) ! 0) = Some True"
    by (simp add: All_less_Suc nth_Cons')
  have "snd (evaluate ?pts) = 3"
    by (simp add: evaluate_def Let_def not_colour_def sameClusterConsistent_def
        noOtherClusterSharesColour_def)
  then show ?thesis
    using first by simp
qed

text \<open>
  The claim as first stated fails for a colour that is the empty string: the
  single point below has a colour that is not \<open>null\<close>, no other point shares its
  cluster and no point of another cluster shares its colour, yet the validator
  marks it incorrect.
\<close>

theorem evaluate_empty_colour_counterexample:
  "colour \<lparr>x = 60, y = 70, id_num = 0, colour = Some '''', clusterId = 0, isCorrect = None\<rparr> \<noteq> None \<and>
   sameClusterConsistent
     [\<lparr>x = 60, y = 70, id_num = 0, colour = Some '''', clusterId = 0, isCorrect = None\<rparr>]
     \<lparr>x = 60, y = 70, id_num = 0, colour = Some '''', clusterId = 0, isCorrect = None\<rparr> \<and>
   noOtherClusterSharesColour
     [\<lparr>x = 60, y = 70, id_num = 0, colour = Some '''', clusterId = 0, isCorrect = None\<rparr>]
     \<lparr>x = 60, y = 70, id_num = 0, colour = Some '''', clusterId = 0, isCorrect = None\<rparr> \<and>
   isCorrect (fst (evaluate
     [\<lparr>x = 60, y = 70, id_num = 0, colour = Some '''', clusterId = 0, isCorrect = None\<rparr>]) ! 0)
     = Some False \<and>
   snd (evaluate
     [\<lparr>x = 60, y = 70, id_num = 0, colour = Some '''', clusterId = 0, isCorrect = None\<rparr>]) = 0"
  by (simp add: evaluate_def Let_def not_colour_def sameClusterConsistent_def
      noOtherClusterSharesColour_def)

section \<open>Properties of the density clusterer\<close>

lemma label_at_update_self: "label_at (labels[c := int cid]) c \<noteq> Some (- 99)"
  by (simp add: label_at_def)

lemma expandCluster_skip:
  assumes "label_at labels current \<noteq> Some (- 99)"
  shows "expandCluster distFn points eps minPts nrm cid (current # seedSet) labels =
         expandCluster distFn points eps minPts nrm cid seedSet
           (if label_at labels current = Some (- 1) then labels[current := int cid] else labels)"
  using assms by (simp add: label_at_update_self)

lemma expandCluster_visit:
  assumes "label_at labels current = Some (- 99)"
  shows "expandCluster distFn points eps minPts nrm cid (current # seedSet) labels =
         (if minPts \<le> int (length (regionQuery distFn points eps nrm current))
          then expandCluster distFn points eps minPts nrm cid
                 (seedSet @ filter (\<lambda>n. n \<notin> set seedSet \<and>
                                        label_at (labels[current := int cid]) n = Some (- 99))
                              (regionQuery distFn points eps nrm current))
                 (labels[current := int cid])
          else expandCluster distFn points eps minPts nrm cid seedSet (labels[current := int cid]))"
  using assms by (simp add: Let_def)

lemma expandCluster_walk [case_names Empty Skip Grow Stay]:
  assumes empty: "\<And>distFn points eps minPts nrm cid labels. P distFn points eps minPts nrm cid [] labels"
    and skip: "\<And>distFn points eps minPts nrm cid current seedSet labels.
        label_at labels current \<noteq> Some (- 99) \<Longrightarrow>
        P distFn points eps minPts nrm cid seedSet
          (if label_at labels current = Some (- 1) then labels[current := int cid] else labels) \<Longrightarrow>
        P distFn points eps minPts nrm cid (current # seedSet) labels"
    and grow: "\<And>distFn points eps minPts nrm cid current seedSet labels.
        label_at labels current = Some (- 99) \<Longrightarrow>
        minPts \<le> int (length (regionQuery distFn points eps nrm current)) \<Longrightarrow>
        P distFn points eps minPts nrm cid
          (seedSet @ filter (\<lambda>n. n \<notin> set seedSet \<and>
                                 label_at (labels[current := int cid]) n = Some (- 99))
                       (regionQuery distFn points eps nrm current))
          (labels[current := int cid]) \<Longrightarrow>
        P distFn points eps minPts nrm cid (current # seedSet) labels"
    and stay: "\<And>distFn points eps minPts nrm cid current seedSet labels.
        label_at labels current = Some (- 99) \<Longrightarrow>
        \<not> minPts \<le> int (length (regionQuery distFn points eps nrm current)) \<Longrightarrow>
        P distFn points eps minPts nrm cid seedSet (labels[current := int cid]) \<Longrightarrow>
        P distFn points eps minPts nrm cid (current # seedSet) labels"
  shows "P distFn points eps minPts nrm cid seedSet labels"
proof (induction distFn points eps minPts nrm cid seedSet labels rule: expandCluster.induct)
  case (1 distFn points eps minPts nrm cid labels)
  show ?case by (rule empty)
next
  case (2 distFn points eps minPts nrm cid current seedSet labels)
  let ?l1 = "if label_at labels current = Some (- 1) then labels[current := int cid] else labels"
  show ?case
  proof (cases "label_at labels current = Some (- 99)")
    case False
    then have "label_at ?l1 current \<noteq> Some (- 99)"
      by (simp add: label_at_update_self)
    then have "P distFn points eps minPts nrm cid seedSet ?l1"
      by (rule "2.IH"(1) [OF refl])
    with False show ?thesis
      by (rule skip)
  next
    case True
    then have l1: "?l1 = labels" and nn: "\<not> label_at ?l1 current \<noteq> Some (- 99)"
      by simp_all
    show ?thesis
    proof (cases "minPts \<le> int (length (regionQuery distFn points eps nrm current))")
      case le: True
      from "2.IH"(2) [OF refl nn refl refl le]
      have "P distFn points eps minPts nrm cid
          (seedSet @ filter (\<lambda>n. n \<notin> set seedSet \<and>
                                 label_at (labels[current := int cid]) n = Some (- 99))
                       (regionQuery distFn points eps nrm current))
          (labels[current := int cid])"
        by (simp only: l1)
      with True le show ?thesis
        by (rule grow)
    next
      case nle: False
      from "2.IH"(3) [OF refl nn refl refl nle]
      have "P distFn points eps minPts nrm cid seedSet (labels[current := int cid])"
        by (simp only: l1)
      with True nle show ?thesis
        by (rule stay)
    qed
  qed
qed

lemma expandCluster_length:
  "length (expandCluster distFn points eps minPts nrm cid seedSet labels) = length labels"
  by (induction distFn points eps minPts nrm cid seedSet labels rule: expandCluster_walk)
     (simp_all add: expandCluster_skip expandCluster_visit del: expandCluster.simps(2))

lemma label_range_update:
  "label_range labels \<Longrightarrow> - 1 \<le> v \<Longrightarrow> label_range (labels[i := v])"
  unfolding label_range_def using set_update_subset_insert [of labels i v] by auto

lemma expandCluster_label_range:
  "label_range labels \<Longrightarrow> label_range (expandCluster distFn points eps minPts nrm cid seedSet labels)"
  by (induction distFn points eps minPts nrm cid seedSet labels rule: expandCluster_walk)
     (simp_all add: expandCluster_skip expandCluster_visit label_range_update
        del: expandCluster.simps(2))

lemma visited_update:
  "j < length labels \<Longrightarrow> labels ! j \<noteq> - 99 \<Longrightarrow> labels[c := int cid] ! j \<noteq> - 99"
  by (cases "j = c") auto

lemma expandCluster_visited:
  "j < length labels \<Longrightarrow> labels ! j \<noteq> - 99 \<Longrightarrow>
   expandCluster distFn points eps minPts nrm cid seedSet labels ! j \<noteq> - 99"
  by (induction distFn points eps minPts nrm cid seedSet labels rule: expandCluster_walk)
     (simp_all add: expandCluster_skip expandCluster_visit visited_update
        del: expandCluster.simps(2))

lemma dbscanStep_length:
  "length (fst (dbscanStep distFn points eps minPts nrm (labels, cid) i)) = length labels"
  by (simp add: dbscanStep_def Let_def expandCluster_length)

lemma dbscanStep_label_range:
  "label_range labels \<Longrightarrow> label_range (fst (dbscanStep distFn points eps minPts nrm (labels, cid) i))"
  by (simp add: dbscanStep_def Let_def expandCluster_label_range label_range_update)

lemma dbscanStep_visited:
  "j < length labels \<Longrightarrow> labels ! j \<noteq> - 99 \<Longrightarrow>
   fst (dbscanStep distFn points eps minPts nrm (labels, cid) i) ! j \<noteq> - 99"
  by (cases "j = i") (simp_all add: dbscanStep_def Let_def expandCluster_visited visited_update)

lemma dbscanStep_visits:
  "i < length labels \<Longrightarrow> fst (dbscanStep distFn points eps minPts nrm (labels, cid) i) ! i \<noteq> - 99"
  by (simp add: dbscanStep_def Let_def expandCluster_visited label_at_def)

lemma dbscan_fold_scanned:
  "m \<le> length points \<Longrightarrow>
   scanned (length points) m
     (fst (foldl (dbscanStep distFn points eps minPts nrm) (replicate (length points) (- 99), 0) [0..<m]))"
proof (induction m)
  case 0
  show ?case
    by (simp add: scanned_def label_range_def)
next
  case (Suc m)
  obtain labels cid where st:
    "foldl (dbscanStep distFn points eps minPts nrm) (replicate (length points) (- 99), 0) [0..<m]
       = (labels, cid)"
    by (cases "foldl (dbscanStep distFn points eps minPts nrm) (replicate (length points) (- 99), 0) [0..<m]")
  from Suc have inv: "scanned (length points) m labels" and m: "m < length points"
    by (simp_all add: st)
  have "scanned (length points) (Suc m) (fst (dbscanStep distFn points eps minPts nrm (labels, cid) m))"
    using inv m unfolding scanned_def
    by (auto simp: dbscanStep_length dbscanStep_label_range dbscanStep_visited dbscanStep_visits
        less_Suc_eq)
  then show ?case
    by (simp add: st)
qed

lemma dbscanLabels_scanned:
  "scanned (length points) (length points) (dbscanLabels distFn points eps minPts nrm)"
  unfolding dbscanLabels_def by (rule dbscan_fold_scanned) simp

lemma dbscan_length: "length (dbscan distFn points eps minPts nrm) = length points"
  by (simp add: dbscan_def Let_def)

lemma dbscan_cluster_range:
  assumes "lp \<in> set (dbscan distFn points eps minPts nrm)"
  shows "cluster lp = - 1 \<or> 0 \<le> cluster lp"
proof -
  from assms obtain i where i: "i < length points"
    and lp: "cluster lp = dbscanLabels distFn points eps minPts nrm ! i"
    by (auto simp: dbscan_def Let_def)
  from dbscanLabels_scanned [of points distFn eps minPts nrm] i
  have "dbscanLabels distFn points eps minPts nrm ! i \<noteq> - 99"
    and "dbscanLabels distFn points eps minPts nrm ! i \<in> set (dbscanLabels distFn points eps minPts nrm)"
    and "label_range (dbscanLabels distFn points eps minPts nrm)"
    by (auto simp: scanned_def)
  then show ?thesis
    unfolding lp label_range_def by force
qed

text \<open>
  Claim C4. Every point returned by the density clusterer carries a label that
  is either \<open>-1\<close> (noise) or a cluster id that is at least \<open>0\<close>; the marker
  \<open>-99\<close> of the unvisited state does not occur in the output. This holds for
  every \<open>eps\<close> and \<open>minPts\<close>, in particular for \<open>eps > 0\<close> and \<open>minPts \<ge> 1\<close>.
\<close>

theorem dbscan_labels_noise_or_cluster:
  "\<forall>lp\<in>set (dbscan distFn points eps minPts nrm).
     (cluster lp = - 1 \<or> 0 \<le> cluster lp) \<and> cluster lp \<noteq> - 99"
proof
  fix lp assume "lp \<in> set (dbscan distFn points eps minPts nrm)"
  then have "cluster lp = - 1 \<or> 0 \<le> cluster lp"
    by (rule dbscan_cluster_range)
  then show "(cluster lp = - 1 \<or> 0 \<le> cluster lp) \<and> cluster lp \<noteq> - 99"
    by auto
qed

theorem dbscan_labels_noise_or_cluster_witness:
  "cluster (dbscan calcDistance [\<lparr>x = 0, y = 0\<rparr>, \<lparr>x = 0, y = 1\<rparr>, \<lparr>x = 5, y = 5\<rparr>, \<lparr>x = 0, y = 2\<rparr>]
              1 3 L1 ! 2) = - 1 \<or>
   0 \<le> cluster (dbscan calcDistance [\<lparr>x = 0, y = 0\<rparr>, \<lparr>x = 0, y = 1\<rparr>, \<lparr>x = 5, y = 5\<rparr>, \<lparr>x = 0, y = 2\<rparr>]
              1 3 L1 ! 2)"
proof -
  let ?out = "dbscan calcDistance [\<lparr>x = 0, y = 0\<rparr>, \<lparr>x = 0, y = 1\<rparr>, \<lparr>x = 5, y = 5\<rparr>, \<lparr>x = 0, y = 2\<rparr>] 1 3 L1"
  have "length ?out = 4"
    by (simp add: dbscan_def Let_def)
  then have "?out ! 2 \<in> set ?out"
    by simp
  with dbscan_labels_noise_or_cluster
    [of calcDistance "[\<lparr>x = 0, y = 0\<rparr>, \<lparr>x = 0, y = 1\<rparr>, \<lparr>x = 5, y = 5\<rparr>, \<lparr>x = 0, y = 2\<rparr>]" 1 3 L1]
  show ?thesis
    by blast
qed

lemma calcDistance_commute: "calcDistance a b m = calcDistance b a m"
  by (cases m) (simp_all add: calcDistance_def Let_def hypot_commute_sign abs_minus_commute)

lemma regionQuery_bound: "c \<in> set (regionQuery distFn points eps nrm idx) \<Longrightarrow> c < length points"
  by (simp add: regionQuery_def)

lemma regionQuery_distinct: "distinct (regionQuery distFn points eps nrm idx)"
  by (simp add: regionQuery_def)

lemma regionQuery_isolated_other:
  assumes "isolated distFn points eps nrm i" and "c < length points" and "c \<noteq> i"
  shows "i \<notin> set (regionQuery distFn points eps nrm c)"
proof
  assume "i \<in> set (regionQuery distFn points eps nrm c)"
  then have "distFn (points ! c) (points ! i) nrm \<le> eps"
    by (simp add: regionQuery_def)
  moreover from assms have "eps < distFn (points ! c) (points ! i) nrm"
    by (simp add: isolated_def)
  ultimately show False
    by simp
qed

lemma regionQuery_isolated_self:
  assumes "isolated distFn points eps nrm i"
  shows "length (regionQuery distFn points eps nrm i) \<le> 1"
proof -
  have "set (regionQuery distFn points eps nrm i) \<subseteq> {i}"
    using assms by (auto simp: regionQuery_def isolated_def)
  then have "card (set (regionQuery distFn points eps nrm i)) \<le> card {i}"
    by (intro card_mono) simp_all
  then show ?thesis
    by (simp add: distinct_card [OF regionQuery_distinct])
qed

lemma expandCluster_untouched:
  assumes "isolated distFn points eps nrm i" and "i \<notin> set seedSet"
    and "\<forall>c\<in>set seedSet. c < length points"
  shows "expandCluster distFn points eps minPts nrm cid seedSet labels ! i = labels ! i"
  using assms
proof (induction distFn points eps minPts nrm cid seedSet labels rule: expandCluster_walk)
  case (Empty distFn points eps minPts nrm cid labels)
  show ?case by simp
next
  case (Skip distFn points eps minPts nrm cid current seedSet labels)
  then show ?case
    by (simp add: expandCluster_skip del: expandCluster.simps(2))
next
  case (Grow distFn points eps minPts nrm cid current seedSet labels)
  from Grow.prems have "current \<noteq> i" and "current < length points"
    by auto
  with Grow.prems have "i \<notin> set (regionQuery distFn points eps nrm current)"
    by (simp add: regionQuery_isolated_other)
  moreover have "\<forall>c\<in>set (seedSet @
        filter (\<lambda>n. n \<notin> set seedSet \<and> label_at (labels[current := int cid]) n = Some (- 99))
          (regionQuery distFn points eps nrm current)). c < length points"
    using Grow.prems by (auto dest: regionQuery_bound)
  ultimately have "expandCluster distFn points eps minPts nrm cid
       (seedSet @
        filter (\<lambda>n. n \<notin> set seedSet \<and> label_at (labels[current := int cid]) n = Some (- 99))
          (regionQuery distFn points eps nrm current))
       (labels[current := int cid]) ! i = labels[current := int cid] ! i"
    using Grow.prems by (intro Grow.IH) auto
  with \<open>current \<noteq> i\<close> Grow.hyps show ?case
    by (simp add: expandCluster_visit del: expandCluster.simps(2))
next
  case (Stay distFn points eps minPts nrm cid current seedSet labels)
  then show ?case
    by (auto simp: expandCluster_visit simp del: expandCluster.simps(2))
qed

lemma dbscanStep_untouched:
  assumes "isolated distFn points eps nrm i" and "j < length points" and "j \<noteq> i"
  shows "fst (dbscanStep distFn points eps minPts nrm (labels, cid) j) ! i = labels ! i"
proof -
  have "i \<notin> set (filter (\<lambda>n. n \<noteq> j) (regionQuery distFn points eps nrm j))"
    using regionQuery_isolated_other [OF assms] by simp
  moreover have "\<forall>c\<in>set (filter (\<lambda>n. n \<noteq> j) (regionQuery distFn points eps nrm j)). c < length points"
    by (auto dest: regionQuery_bound)
  ultimately show ?thesis
    using assms by (simp add: dbscanStep_def Let_def expandCluster_untouched)
qed

lemma dbscan_fold_length:
  "length (fst (foldl (dbscanStep distFn points eps minPts nrm) st js)) = length (fst st)"
proof (induction js arbitrary: st)
  case Nil
  show ?case by simp
next
  case (Cons j js)
  show ?case
    by (cases st) (simp add: Cons.IH dbscanStep_length)
qed

lemma dbscan_fold_untouched:
  assumes "isolated distFn points eps nrm i" and "i \<notin> set js" and "\<forall>j\<in>set js. j < length points"
  shows "fst (foldl (dbscanStep distFn points eps minPts nrm) st js) ! i = fst st ! i"
  using assms(2,3)
proof (induction js arbitrary: st)
  case Nil
  show ?case by simp
next
  case (Cons j js)
  obtain labels cid where st: "st = (labels, cid)"
    by (cases st)
  from Cons.prems have "j < length points" and "j \<noteq> i"
    by auto
  then have "fst (dbscanStep distFn points eps minPts nrm st j) ! i = fst st ! i"
    unfolding st by (simp add: dbscanStep_untouched [OF assms(1)])
  with Cons show ?case
    by simp
qed

lemma dbscanStep_isolated:
  assumes "isolated distFn points eps nrm i" and "2 \<le> minPts" and "i < length labels"
    and "labels ! i = - 99"
  shows "fst (dbscanStep distFn points eps minPts nrm (labels, cid) i) ! i = - 1"
  using assms regionQuery_isolated_self [OF assms(1)]
  by (simp add: dbscanStep_def Let_def label_at_def)

lemma dbscanLabels_isolated:
  assumes "isolated distFn points eps nrm i" and "2 \<le> minPts" and "i < length points"
  shows "dbscanLabels distFn points eps minPts nrm ! i = - 1"
proof -
  let ?f = "dbscanStep distFn points eps minPts nrm"
  let ?s0 = "(replicate (length points) (- 99), 0) :: int list \<times> nat"
  let ?s1 = "foldl ?f ?s0 [0..<i]"
  obtain labels cid where s1: "?s1 = (labels, cid)"
    by (cases ?s1)
  have split: "[0..<length points] = [0..<i] @ i # [Suc i..<length points]"
    using assms(3) by (metis upt_conv_Cons upt_add_eq_append zero_le le_add_diff_inverse less_imp_le)
  have "fst ?s1 ! i = fst ?s0 ! i"
    by (rule dbscan_fold_untouched [OF assms(1)]) (use assms(3) in auto)
  then have unv: "labels ! i = - 99"
    using assms(3) by (simp add: s1)
  have "length (fst ?s1) = length points"
    by (simp add: dbscan_fold_length)
  then have len: "i < length labels"
    using assms(3) by (simp add: s1)
  have noise: "fst (?f (labels, cid) i) ! i = - 1"
    by (rule dbscanStep_isolated [OF assms(1,2) len unv])
  have "fst (foldl ?f (?f (labels, cid) i) [Suc i..<length points]) ! i
          = fst (?f (labels, cid) i) ! i"
    by (rule dbscan_fold_untouched [OF assms(1)]) auto
  with noise show ?thesis
    by (simp add: dbscanLabels_def split s1)
qed

text \<open>
  Claim C3, as amended. For every input sequence, every \<open>eps > 0\<close>, every
  \<open>minPts \<ge> 2\<close> and every metric, a point whose distance to every other point
  exceeds \<open>eps\<close> is labelled \<open>-1\<close> in the output of the density clusterer. The
  distances are the numbers that \<open>calcDistance\<close> returns for the point and the
  other point, in either order of the arguments; the statement holds for every
  \<open>distFn\<close>, so also for the double-precision values that the clusterer compares
  with \<open>eps\<close>.
\<close>

theorem dbscan_isolated_point_is_noise:
  fixes eps :: "'v::{linorder,zero}"
  assumes "0 < eps" and "2 \<le> minPts" and "i < length points"
    and "\<forall>j<length points. j \<noteq> i \<longrightarrow>
           eps < distFn (points ! i) (points ! j) nrm \<and> eps < distFn (points ! j) (points ! i) nrm"
  shows "cluster (dbscan distFn points eps minPts nrm ! i) = - 1"
proof -
  from assms(4) have "isolated distFn points eps nrm i"
    by (simp add: isolated_def)
  then have "dbscanLabels distFn points eps minPts nrm ! i = - 1"
    using assms(2,3) by (rule dbscanLabels_isolated)
  then show ?thesis
    using assms(3) by (simp add: dbscan_def Let_def)
qed

theorem dbscan_isolated_point_is_noise_witness:
  "(0::real) < 1 \<and> (2::int) \<le> 2 \<and>
   cluster (dbscan calcDistance [\<lparr>x = 0, y = 0\<rparr>, \<lparr>x = 0, y = 1\<rparr>, \<lparr>x = 5, y = 5\<rparr>, \<lparr>x = 0, y = 2\<rparr>]
              1 2 L1 ! 2) = - 1"
  using dbscan_isolated_point_is_noise
    [where distFn = calcDistance and eps = 1 and minPts = 2 and i = 2 and nrm = L1
       and points = "[\<lparr>x = 0, y = 0\<rparr>, \<lparr>x = 0, y = 1\<rparr>, \<lparr>x = 5, y = 5\<rparr>, \<lparr>x = 0, y = 2\<rparr>]"]
  by (simp add: All_less_Suc nth_Cons' calcDistance_def)

text \<open>
  The claim as first stated fails for \<open>minPts = 1\<close>: a point counts as its own
  neighbour, so with \<open>minPts = 1\<close> an isolated point is a core point and opens a
  cluster of its own. At the two points below the distances are small integers,
  which double-precision arithmetic computes exactly.
\<close>

theorem dbscan_isolated_minPts_one_counterexample:
  "(0::real) < 1 \<and> (1::int) \<le> 1 \<and>
   1 < calcDistance \<lparr>x = 0, y = 0\<rparr> \<lparr>x = 5, y = 5\<rparr> L1 \<and>
   cluster (dbscan calcDistance [\<lparr>x = 0, y = 0\<rparr>, \<lparr>x = 5, y = 5\<rparr>] 1 1 L1 ! 0) = 0"
  by (simp add: dbscan_def dbscanLabels_def dbscanStep_def label_at_def regionQuery_def
      calcDistance_def upt_rec)

text \<open>
  Two points for which the numbers returned by \<open>calcDistance\<close> are at most
  \<open>eps\<close> are neighbours, also when an exact distance is larger than \<open>eps\<close> and
  only its double-precision value is not. Neither of them is isolated then, and
  with \<open>minPts = 2\<close> both get the cluster \<open>0\<close>.
\<close>

lemma dbscan_pair_within_eps:
  assumes "distFn a a nrm \<le> eps" and "distFn a b nrm \<le> eps"
  shows "map cluster (dbscan distFn [a, b] eps 2 nrm) = [0, 0]"
proof -
  have rq0: "regionQuery distFn [a, b] eps nrm 0 = [0, 1]"
    using assms by (simp add: regionQuery_def upt_rec)
  have "filter (\<lambda>n. n \<notin> set [] \<and> label_at ([0, - 99][Suc 0 := int 0]) n = Some (- 99))
          (regionQuery distFn [a, b] eps nrm (Suc 0)) = []"
    by (auto simp: filter_empty_conv label_at_def nth_Cons' dest: regionQuery_bound)
  moreover have "label_at [0, - 99] (Suc 0) = Some (- 99)"
    by (simp add: label_at_def)
  ultimately have ex: "expandCluster distFn [a, b] eps 2 nrm 0 [Suc 0] [0, - 99] = [0, 0]"
    by (simp add: expandCluster_visit del: expandCluster.simps(2))
  have "dbscanLabels distFn [a, b] eps 2 nrm = [0, 0]"
    by (simp add: dbscanLabels_def dbscanStep_def label_at_def rq0 ex upt_rec Let_def
        del: expandCluster.simps(2))
  then show ?thesis
    by (simp add: dbscan_def Let_def upt_rec)
qed

section \<open>Properties of the partitioning clusterer\<close>

lemma rnd_index_range:
  assumes "0 \<le> r" and "r < 1"
  shows "0 \<le> \<lfloor>r * real n\<rfloor> \<and> \<lfloor>r * real n\<rfloor> < int (max 1 n)"
proof
  from assms(1) have "0 \<le> r * real n"
    by simp
  then show "0 \<le> \<lfloor>r * real n\<rfloor>"
    by simp
next
  show "\<lfloor>r * real n\<rfloor> < int (max 1 n)"
  proof (cases "n = 0")
    case True
    then show ?thesis by simp
  next
    case False
    with assms(2) have "r * real n < real n"
      by simp
    also have "\<dots> \<le> real (max 1 n)"
      by simp
    finally show ?thesis
      by (simp add: floor_less_iff)
  qed
qed

lemma pickCentroids_never_returns:
  assumes "pickCentroids points k rnd t cs seen = Some res"
  shows "\<not> ((\<forall>t. 0 \<le> rnd t \<and> rnd t < 1) \<and> int (max 1 (length points)) < k \<and>
            finite seen \<and> seen \<subseteq> {0..<int (max 1 (length points))} \<and>
            length cs = card seen)"
proof (rule pickCentroids.raw_induct
    [where P = "\<lambda>points k rnd t cs seen res.
        \<not> ((\<forall>t. 0 \<le> rnd t \<and> rnd t < 1) \<and> int (max 1 (length points)) < k \<and>
            finite seen \<and> seen \<subseteq> {0..<int (max 1 (length points))} \<and>
            length cs = card seen)", OF _ assms], goal_cases)
  case (1 pick points k rnd t cs seen res)
  let ?idx = "\<lfloor>rnd t * real (length points)\<rfloor>"
  show ?case
  proof
    assume inv: "(\<forall>t. 0 \<le> rnd t \<and> rnd t < 1) \<and> int (max 1 (length points)) < k \<and>
            finite seen \<and> seen \<subseteq> {0..<int (max 1 (length points))} \<and>
            length cs = card seen"
    then have "card seen \<le> card {0..<int (max 1 (length points))}"
      by (intro card_mono) simp_all
    with inv have small: "int (length cs) < k"
      by simp
    have idx: "?idx \<in> {0..<int (max 1 (length points))}"
      using rnd_index_range [of "rnd t" "length points"] inv by simp
    show False
    proof (cases "?idx \<in> seen")
      case True
      with small 1(2) have "pick points k rnd (Suc t) cs seen = Some res"
        by (simp add: Let_def)
      from 1(1) [OF this] inv show False
        by blast
    next
      case False
      with small 1(2)
      have "pick points k rnd (Suc t) (cs @ [spread_point points ?idx]) (insert ?idx seen) = Some res"
        by (simp add: Let_def)
      from 1(1) [OF this] have
        "\<not> ((\<forall>t. 0 \<le> rnd t \<and> rnd t < 1) \<and> int (max 1 (length points)) < k \<and>
            finite (insert ?idx seen) \<and>
            insert ?idx seen \<subseteq> {0..<int (max 1 (length points))} \<and>
            length (cs @ [spread_point points ?idx]) = card (insert ?idx seen))" .
      moreover have "length (cs @ [spread_point points ?idx]) = card (insert ?idx seen)"
        using False inv by simp
      moreover have "insert ?idx seen \<subseteq> {0..<int (max 1 (length points))}"
        using idx inv by simp
      ultimately show False
        using inv by simp
    qed
  qed
qed

lemma pickCentroids_diverges:
  assumes "\<forall>t. 0 \<le> rnd t \<and> rnd t < 1" and "int (max 1 (length points)) < k"
  shows "pickCentroids points k rnd 0 [] {} = None"
proof (cases "pickCentroids points k rnd 0 [] {}")
  case None
  then show ?thesis .
next
  case (Some res)
  from pickCentroids_never_returns [OF this] assms have False
    by simp
  then show ?thesis ..
qed

lemma kMeans_diverges:
  assumes "\<forall>t. 0 \<le> rnd t \<and> rnd t < 1" and "int (max 1 (length points)) < k"
    and "case initialCentroids of None \<Rightarrow> True | Some ic \<Rightarrow> int (length ic) \<noteq> k"
  shows "kMeans distFn points k nrm initialCentroids rnd maxIter = None"
proof -
  from assms(2) have "\<not> k \<le> 0"
    by simp
  moreover have "initCentroids points k initialCentroids rnd = None"
    using assms(3) pickCentroids_diverges [OF assms(1,2)]
    by (cases initialCentroids) (simp_all add: initCentroids_def)
  ultimately show ?thesis
    by (simp add: kMeans_def)
qed


lemma indexOfFrom_first:
  assumes "v \<in> set ds"
  shows "\<exists>j<length ds. indexOfFrom ds v s = int (s + j) \<and> ds ! j = v \<and> (\<forall>j'<j. ds ! j' \<noteq> v)"
  using assms
proof (induction ds arbitrary: s)
  case Nil
  then show ?case by simp
next
  case (Cons d ds)
  show ?case
  proof (cases "d = v")
    case True
    then have "indexOfFrom (d # ds) v s = int (s + 0) \<and> (d # ds) ! 0 = v \<and>
               (\<forall>j'<0. (d # ds) ! j' \<noteq> v)"
      by simp
    then show ?thesis
      by (intro exI [of _ 0]) simp
  next
    case False
    with Cons.prems have "v \<in> set ds"
      by simp
    from Cons.IH [OF this, of "Suc s"] obtain j where j: "j < length ds"
      and idx: "indexOfFrom ds v (Suc s) = int (Suc s + j)" and at: "ds ! j = v"
      and first: "\<forall>j'<j. ds ! j' \<noteq> v"
      by blast
    have "\<forall>j'<Suc j. (d # ds) ! j' \<noteq> v"
    proof (intro allI impI)
      fix j' assume "j' < Suc j"
      then show "(d # ds) ! j' \<noteq> v"
        using False first by (cases j') simp_all
    qed
    with j idx at False show ?thesis
      by (intro exI [of _ "Suc j"]) simp
  qed
qed

lemma nearestIdx_first_minimum:
  assumes "centroids \<noteq> []"
  shows "\<exists>m<length centroids. nearestIdx distFn centroids nrm p = int m \<and>
           (\<forall>j<length centroids. distFn p (centroids ! m) nrm \<le> distFn p (centroids ! j) nrm) \<and>
           (\<forall>j<m. distFn p (centroids ! m) nrm < distFn p (centroids ! j) nrm)"
proof -
  let ?dists = "map (\<lambda>c. distFn p c nrm) centroids"
  let ?min = "Min (set ?dists)"
  from assms have ne: "?dists \<noteq> []"
    by simp
  then have "?min \<in> set ?dists"
    by (intro Min_in) simp_all
  from indexOfFrom_first [OF this, of 0] obtain m where m: "m < length ?dists"
    and idx: "indexOfFrom ?dists ?min 0 = int m" and at: "?dists ! m = ?min"
    and first: "\<forall>j'<m. ?dists ! j' \<noteq> ?min"
    by auto
  have lower: "?min \<le> ?dists ! j" if "j < length ?dists" for j
    using that by (intro Min_le) (simp_all del: set_map length_map)
  have "nearestIdx distFn centroids nrm p = int m"
    using ne idx by (simp add: nearestIdx_def math_min_def indexOf_def Let_def)
  moreover have "\<forall>j<length centroids.
      distFn p (centroids ! m) nrm \<le> distFn p (centroids ! j) nrm"
    using lower at m by (metis length_map nth_map)
  moreover have "\<forall>j<m. distFn p (centroids ! m) nrm < distFn p (centroids ! j) nrm"
  proof (intro allI impI)
    fix j assume j: "j < m"
    with m have jl: "j < length ?dists"
      by simp
    from first j have "?dists ! j \<noteq> ?min"
      by blast
    with lower [OF jl] have "?min < ?dists ! j"
      by simp
    with at show "distFn p (centroids ! m) nrm < distFn p (centroids ! j) nrm"
      using m jl by (metis length_map nth_map)
  qed
  ultimately show ?thesis
    using m by auto
qed

lemma assignStep_length:
  "length (snd (assignStep distFn centroids nrm points (ch, labels) i)) = length labels"
  by (simp add: assignStep_def Let_def)

lemma assignStep_nth:
  assumes "i < length labels"
  shows "snd (assignStep distFn centroids nrm points (ch, labels) i) ! j =
           (if j = i then nearestIdx distFn centroids nrm (points ! i) else labels ! j)"
  using assms by (auto simp: assignStep_def Let_def label_at_def)

lemma assignment_fold:
  assumes "m \<le> length points" and "length labels = length points"
  shows "length (snd (foldl (assignStep distFn centroids nrm points) (False, labels) [0..<m]))
           = length labels \<and>
         (\<forall>j<length labels.
            snd (foldl (assignStep distFn centroids nrm points) (False, labels) [0..<m]) ! j =
              (if j < m then nearestIdx distFn centroids nrm (points ! j) else labels ! j))"
  using assms(1)
proof (induction m)
  case 0
  show ?case by simp
next
  case (Suc m)
  obtain ch ls where st:
    "foldl (assignStep distFn centroids nrm points) (False, labels) [0..<m] = (ch, ls)"
    by (cases "foldl (assignStep distFn centroids nrm points) (False, labels) [0..<m]")
  from Suc have len: "length ls = length labels"
    and prev: "\<forall>j<length labels. ls ! j = (if j < m then nearestIdx distFn centroids nrm (points ! j) else labels ! j)"
    and m: "m < length ls"
    using assms(2) by (simp_all add: st)
  show ?case
    using len prev m by (auto simp: st assignStep_length assignStep_nth less_Suc_eq)
qed

lemma assignment_length:
  "length labels = length points \<Longrightarrow>
   length (snd (assignment distFn centroids nrm points labels)) = length points"
  using assignment_fold [where m = "length points" and points = points and labels = labels
      and centroids = centroids and nrm = nrm and distFn = distFn]
  by (simp add: assignment_def)

lemma assignment_nth:
  "length labels = length points \<Longrightarrow> i < length points \<Longrightarrow>
   snd (assignment distFn centroids nrm points labels) ! i = nearestIdx distFn centroids nrm (points ! i)"
  using assignment_fold [where m = "length points" and points = points and labels = labels
      and centroids = centroids and nrm = nrm and distFn = distFn]
  by (simp add: assignment_def)

text \<open>
  Claim C5. In an assignment round every point is assigned to a centroid at
  minimal distance under the chosen metric, and among several centroids at that
  minimal distance to the one with the lowest index: every centroid with a lower
  index is strictly farther away. In \<open>kMeans\<close> the centroid array has \<open>k \<ge> 1\<close>
  entries and \<open>labels\<close> has one entry per point. The distances are the numbers
  that \<open>calcDistance\<close> returns, which are what the assignment loop compares; the
  statement holds for every \<open>distFn\<close>, so also for the double-precision values.
\<close>

theorem assignment_nearest_lowest_index:
  assumes "centroids \<noteq> []" and "length labels = length points" and "i < length points"
  shows "\<exists>m<length centroids.
           snd (assignment distFn centroids nrm points labels) ! i = int m \<and>
           (\<forall>j<length centroids.
              distFn (points ! i) (centroids ! m) nrm
                \<le> distFn (points ! i) (centroids ! j) nrm) \<and>
           (\<forall>j<m.
              distFn (points ! i) (centroids ! m) nrm
                < distFn (points ! i) (centroids ! j) nrm)"
  unfolding assignment_nth [OF assms(2,3)]
  by (rule nearestIdx_first_minimum [OF assms(1)])


theorem assignment_nearest_lowest_index_witness:
  "snd (assignment calcDistance [\<lparr>x = 0, y = 0\<rparr>, \<lparr>x = 2, y = 0\<rparr>] L1 [\<lparr>x = 1, y = 0\<rparr>] [7]) ! 0 = 0"
proof -
  let ?cs = "[\<lparr>x = 0, y = 0\<rparr>, \<lparr>x = 2, y = 0\<rparr>]"
  let ?p = "\<lparr>x = 1, y = 0\<rparr>"
  have "?cs \<noteq> []" and "length [7 :: int] = length [?p]" and "0 < length [?p]"
    by simp_all
  from assignment_nearest_lowest_index [OF this, where nrm = L1 and distFn = calcDistance]
  obtain m where m: "m < 2" and eq: "snd (assignment calcDistance ?cs L1 [?p] [7]) ! 0 = int m"
    and first: "\<forall>j<m. calcDistance ?p (?cs ! m) L1 < calcDistance ?p (?cs ! j) L1"
    by auto
  have "m = 0"
  proof (rule ccontr)
    assume "m \<noteq> 0"
    with m have "m = 1"
      by simp
    with first have "calcDistance ?p (?cs ! 1) L1 < calcDistance ?p (?cs ! 0) L1"
      by simp
    then show False
      by (simp add: calcDistance_def)
  qed
  with eq show ?thesis
    by simp
qed

text \<open>
  Two centroids for which \<open>calcDistance\<close> returns the same number are tied,
  whatever their exact distances are, and the point goes to the first of them.
\<close>

lemma assignment_tie_takes_first:
  assumes "distFn p c0 nrm = distFn p c1 nrm"
  shows "snd (assignment distFn [c0, c1] nrm [p] [l]) ! 0 = 0"
proof -
  have eq: "snd (assignment distFn [c0, c1] nrm [p] [l]) ! 0 = nearestIdx distFn [c0, c1] nrm p"
    using assignment_nth [where labels = "[l]" and points = "[p]" and i = 0
        and distFn = distFn and centroids = "[c0, c1]" and nrm = nrm]
    by simp
  from nearestIdx_first_minimum [where centroids = "[c0, c1]" and distFn = distFn and nrm = nrm and p = p]
  obtain m where m: "m < 2" and idx: "nearestIdx distFn [c0, c1] nrm p = int m"
    and first: "\<forall>j<m. distFn p ([c0, c1] ! m) nrm < distFn p ([c0, c1] ! j) nrm"
    by auto
  have "m = 0"
  proof (rule ccontr)
    assume "m \<noteq> 0"
    with m have "m = 1"
      by simp
    with first have "distFn p c1 nrm < distFn p c0 nrm"
      by simp
    with assms show False
      by simp
  qed
  with eq idx show ?thesis
    by simp
qed

lemma assignment_label_range:
  assumes "centroids \<noteq> []" and "length labels = length points"
  shows "\<forall>l\<in>set (snd (assignment distFn centroids nrm points labels)).
           0 \<le> l \<and> l < int (length centroids)"
proof
  fix l assume "l \<in> set (snd (assignment distFn centroids nrm points labels))"
  then obtain i where i: "i < length points"
    and l: "l = snd (assignment distFn centroids nrm points labels) ! i"
    using assignment_length [OF assms(2), where centroids = centroids and nrm = nrm and distFn = distFn] by (metis in_set_conv_nth)
  from nearestIdx_first_minimum [OF assms(1), where nrm = nrm and p = "points ! i" and distFn = distFn]
  show "0 \<le> l \<and> l < int (length centroids)"
    unfolding l assignment_nth [OF assms(2) i] by auto
qed

lemma sumLoop_returns:
  assumes "\<forall>lp\<in>set lps. 0 \<le> fst lp \<and> fst lp < int (length sum_arr)"
  shows "\<exists>res. sumLoop sum_arr lps = Inr res \<and> length res = length sum_arr"
  using assms
proof (induction lps arbitrary: sum_arr)
  case Nil
  show ?case by simp
next
  case (Cons lp lps)
  obtain lbl p where lp: "lp = (lbl, p)"
    by (cases lp)
  let ?next = "sum_arr[nat lbl := \<lparr>x = x (sum_arr ! nat lbl) + x p,
                                    y = y (sum_arr ! nat lbl) + y p,
                                    n_count = n_count (sum_arr ! nat lbl) + 1\<rparr>]"
  from Cons.prems have "\<forall>lp\<in>set lps. 0 \<le> fst lp \<and> fst lp < int (length ?next)"
    by simp
  from Cons.IH [OF this] Cons.prems show ?case
    by (simp add: lp)
qed

lemma moveCentroids_length: "length (moveCentroids centroids sum_arr) = length centroids"
proof -
  have "length (foldl (\<lambda>cs idx.
              if 0 < n_count (sum_arr ! idx)
              then cs[idx := \<lparr>x = x (sum_arr ! idx) / real (n_count (sum_arr ! idx)),
                              y = y (sum_arr ! idx) / real (n_count (sum_arr ! idx))\<rparr>]
              else cs) cs0 js) = length cs0" for cs0 js
    by (induction js arbitrary: cs0) simp_all
  then show ?thesis
    by (simp add: moveCentroids_def)
qed

lemma lloyd_returns:
  assumes "0 < k" and "length centroids = nat k" and "length labels = length points"
  shows "\<exists>res. lloyd distFn m points k nrm centroids labels = Inr res \<and> length res = length points"
  using assms(2,3)
proof (induction m arbitrary: centroids labels)
  case 0
  then show ?case by simp
next
  case (Suc m)
  obtain changed labels' where asg: "assignment distFn centroids nrm points labels = (changed, labels')"
    by (cases "assignment distFn centroids nrm points labels")
  from Suc.prems assms(1) have ne: "centroids \<noteq> []"
    by auto
  have len: "length labels' = length points"
    using assignment_length [OF Suc.prems(2), where centroids = centroids and nrm = nrm and distFn = distFn] by (simp add: asg)
  show ?case
  proof (cases changed)
    case False
    with len show ?thesis
      by (simp add: asg)
  next
    case True
    have "\<forall>l\<in>set labels'. 0 \<le> l \<and> l < int (length centroids)"
      using assignment_label_range [OF ne Suc.prems(2), where nrm = nrm and distFn = distFn] by (simp add: asg)
    then have "\<forall>lp\<in>set (zip labels' points).
        0 \<le> fst lp \<and> fst lp < int (length (replicate (nat k) \<lparr>x = 0, y = 0, n_count = 0\<rparr>))"
      using Suc.prems(1) by (auto dest: set_zip_leftD)
    from sumLoop_returns [OF this] obtain sum_arr where
      sm: "sumLoop (replicate (nat k) \<lparr>x = 0, y = 0, n_count = 0\<rparr>) (zip labels' points) = Inr sum_arr"
      by blast
    have "length (moveCentroids centroids sum_arr) = nat k"
      using Suc.prems(1) by (simp add: moveCentroids_length)
    from Suc.IH [OF this len] True show ?thesis
      by (simp add: asg sm)
  qed
qed

lemma pickCentroids_count:
  assumes "pickCentroids points k rnd t cs seen = Some res"
  shows "int (length cs) \<le> k \<longrightarrow> int (length res) = k"
proof (rule pickCentroids.raw_induct
    [where P = "\<lambda>points k rnd t cs seen res. int (length cs) \<le> k \<longrightarrow> int (length res) = k",
     OF _ assms], goal_cases)
  case (1 pick points k rnd t cs seen res)
  show ?case
  proof
    assume le: "int (length cs) \<le> k"
    show "int (length res) = k"
    proof (cases "int (length cs) < k")
      case False
      with 1(2) le show ?thesis
        by simp
    next
      case True
      let ?idx = "\<lfloor>rnd t * real (length points)\<rfloor>"
      show ?thesis
      proof (cases "?idx \<in> seen")
        case seen: True
        with True 1(2) have "pick points k rnd (Suc t) cs seen = Some res"
          by (simp add: Let_def)
        from 1(1) [OF this] le show ?thesis
          by simp
      next
        case fresh: False
        with True 1(2)
        have "pick points k rnd (Suc t) (cs @ [spread_point points ?idx]) (insert ?idx seen) = Some res"
          by (simp add: Let_def)
        from 1(1) [OF this] True show ?thesis
          by simp
      qed
    qed
  qed
qed

lemma initCentroids_count:
  assumes "initCentroids points k initialCentroids rnd = Some centroids" and "0 < k"
  shows "length centroids = nat k"
proof -
  have pick: "length res = nat k" if "pickCentroids points k rnd 0 [] {} = Some res" for res
    using pickCentroids_count [OF that] assms(2) by simp
  show ?thesis
  proof (cases initialCentroids)
    case None
    with assms(1) show ?thesis
      by (simp add: initCentroids_def pick)
  next
    case (Some ic)
    with assms(1) show ?thesis
      by (cases "int (length ic) = k") (auto simp: initCentroids_def pick)
  qed
qed

lemma kMeans_result_shape:
  assumes "kMeans distFn points k nrm initialCentroids rnd maxIter = Some r"
  shows "\<exists>labels. length labels = length points \<and>
           r = Inr (map (\<lambda>i. \<lparr>x = x (points ! i), y = y (points ! i), cluster = labels ! i\<rparr>)
                        [0..<length points])"
proof (cases "k \<le> 0")
  case True
  with assms have "r = Inr (map (\<lambda>p. \<lparr>x = x p, y = y p, cluster = 0\<rparr>) points)"
    by (simp add: kMeans_def)
  also have "map (\<lambda>p. \<lparr>x = x p, y = y p, cluster = 0\<rparr>) points =
      map (\<lambda>i. \<lparr>x = x (points ! i), y = y (points ! i), cluster = replicate (length points) 0 ! i\<rparr>)
          [0..<length points]"
    by (rule nth_equalityI) simp_all
  finally show ?thesis
    by (intro exI [of _ "replicate (length points) 0"]) simp
next
  case False
  with assms obtain centroids where ic: "initCentroids points k initialCentroids rnd = Some centroids"
    by (cases "initCentroids points k initialCentroids rnd") (simp_all add: kMeans_def)
  from False have k: "0 < k"
    by simp
  from lloyd_returns [OF k initCentroids_count [OF ic k], where labels = "replicate (length points) 0"
      and points = points and m = maxIter and nrm = nrm and distFn = distFn]
  obtain labels where "lloyd distFn maxIter points k nrm centroids (replicate (length points) 0) = Inr labels"
    and len: "length labels = length points"
    by auto
  with assms False ic
  have "r = Inr (map (\<lambda>i. \<lparr>x = x (points ! i), y = y (points ! i), cluster = labels ! i\<rparr>)
                     [0..<length points])"
    by (simp add: kMeans_def)
  with len show ?thesis
    by blast
qed

lemma kMeans_returns_with_centroids:
  assumes "int (length ic) = k"
  shows "\<exists>r. kMeans distFn points k nrm (Some ic) rnd maxIter = Some r"
  using assms by (simp add: kMeans_def initCentroids_def)

text \<open>
  Claim C6. For every input sequence and every \<open>k \<le> 0\<close> the partitioning
  clusterer returns, without an error, the input points each labelled \<open>0\<close>.
\<close>

theorem kMeans_nonpositive_k:
  assumes "k \<le> 0"
  shows "kMeans distFn points k nrm initialCentroids rnd maxIter =
           Some (Inr (map (\<lambda>p. \<lparr>x = x p, y = y p, cluster = 0\<rparr>) points))"
  using assms by (simp add: kMeans_def)

theorem kMeans_nonpositive_k_witness:
  "kMeans calcDistance [\<lparr>x = 1, y = 2\<rparr>, \<lparr>x = 3, y = 4\<rparr>] (- 2) L2 None (\<lambda>t. 0) 50 =
     Some (Inr [\<lparr>x = 1, y = 2, cluster = 0\<rparr>, \<lparr>x = 3, y = 4, cluster = 0\<rparr>])"
  using kMeans_nonpositive_k [where k = "- 2" and points = "[\<lparr>x = 1, y = 2\<rparr>, \<lparr>x = 3, y = 4\<rparr>]"
      and distFn = calcDistance and nrm = L2 and initialCentroids = None and rnd = "\<lambda>t. 0"
      and maxIter = 50]
  by simp

section \<open>Out-of-domain parameters\<close>

text \<open>
  Claim C2 says that the core fails fast with a descriptive error on
  out-of-domain parameters. Neither function checks its parameters. With one
  point, \<open>k = 2\<close> and random seeding the sampling loop of \<open>kMeans\<close> never ends,
  and \<open>dbscan\<close> with \<open>eps = -1\<close> and \<open>minPts = 0\<close> returns a labelling.
\<close>

theorem no_parameter_check_counterexample:
  "kMeans calcDistance [\<lparr>x = 0, y = 0\<rparr>] 2 L1 None (\<lambda>t. 0) 50 = None \<and>
   dbscan calcDistance [\<lparr>x = 0, y = 0\<rparr>] (- 1) 0 L1 = [\<lparr>x = 0, y = 0, cluster = 0\<rparr>]"
proof
  show "kMeans calcDistance [\<lparr>x = 0, y = 0\<rparr>] 2 L1 None (\<lambda>t. 0) 50 = None"
    by (rule kMeans_diverges) simp_all
next
  show "dbscan calcDistance [\<lparr>x = 0, y = 0\<rparr>] (- 1) 0 L1 = [\<lparr>x = 0, y = 0, cluster = 0\<rparr>]"
    by (simp add: dbscan_def dbscanLabels_def dbscanStep_def label_at_def regionQuery_def
        calcDistance_def)
qed

text \<open>
  Claim C2, as amended. The core does not validate these parameters and raises
  no error for them. When the centroids are seeded at random and \<open>k\<close> is larger
  than the number of points (and larger than \<open>1\<close>), \<open>kMeans\<close> does not return:
  the distinct sampling cannot terminate. For \<open>eps \<le> 0\<close> or \<open>minPts < 1\<close>,
  \<open>dbscan\<close> returns one labelled point per input point, each label \<open>-1\<close> or a
  cluster id that is at least \<open>0\<close>.
\<close>

theorem out_of_domain_parameters_not_rejected:
  "((\<forall>t. 0 \<le> rnd t \<and> rnd t < 1) \<and> int (max 1 (length points)) < k \<and>
    (case initialCentroids of None \<Rightarrow> True | Some ic \<Rightarrow> int (length ic) \<noteq> k)
      \<longrightarrow> kMeans distFn points k nrm initialCentroids rnd maxIter = None) \<and>
   (eps \<le> 0 \<or> minPts < 1
      \<longrightarrow> length (dbscan distFn points eps minPts nrm) = length points \<and>
          (\<forall>lp\<in>set (dbscan distFn points eps minPts nrm). cluster lp = - 1 \<or> 0 \<le> cluster lp))"
proof (intro conjI impI ballI)
  assume "(\<forall>t. 0 \<le> rnd t \<and> rnd t < 1) \<and> int (max 1 (length points)) < k \<and>
    (case initialCentroids of None \<Rightarrow> True | Some ic \<Rightarrow> int (length ic) \<noteq> k)"
  then show "kMeans distFn points k nrm initialCentroids rnd maxIter = None"
    by (intro kMeans_diverges) simp_all
next
  show "length (dbscan distFn points eps minPts nrm) = length points"
    by (rule dbscan_length)
next
  fix lp assume "lp \<in> set (dbscan distFn points eps minPts nrm)"
  then show "cluster lp = - 1 \<or> 0 \<le> cluster lp"
    by (rule dbscan_cluster_range)
qed

theorem out_of_domain_parameters_not_rejected_witness:
  "kMeans calcDistance [\<lparr>x = 0, y = 0\<rparr>, \<lparr>x = 1, y = 1\<rparr>] 3 L2 None (\<lambda>t. 1 / 2) 50 = None \<and>
   length (dbscan calcDistance [\<lparr>x = 0, y = 0\<rparr>, \<lparr>x = 1, y = 1\<rparr>] 0 0 L1) = 2"
  using out_of_domain_parameters_not_rejected
    [where rnd = "\<lambda>t. 1 / 2" and points = "[\<lparr>x = 0, y = 0\<rparr>, \<lparr>x = 1, y = 1\<rparr>]" and k = 3
       and initialCentroids = None and nrm = L2 and maxIter = 50 and eps = 0 and minPts = 0
       and distFn = calcDistance]
    out_of_domain_parameters_not_rejected
    [where rnd = "\<lambda>t. 1 / 2" and points = "[\<lparr>x = 0, y = 0\<rparr>, \<lparr>x = 1, y = 1\<rparr>]" and k = 3
       and initialCentroids = None and nrm = L1 and maxIter = 50 and eps = 0 and minPts = 0
       and distFn = calcDistance]
  by simp

section \<open>Properties of the point generator\<close>

lemma call_rnd_seeded:
  "call_rnd ambient (Mulberry32 a) =
     (fst (mulberry32_next a), Mulberry32 (snd (mulberry32_next a)))"
  by (simp add: call_rnd_def split: prod.split)

lemma nth_draw_seeded:
  "nth_draw ambient1 (Mulberry32 a) i = nth_draw ambient2 (Mulberry32 a) i"
  by (induction i arbitrary: a) (simp_all add: call_rnd_seeded)

lemma rawPoints_seeded:
  "rawPoints ambient1 n (Mulberry32 a) = rawPoints ambient2 n (Mulberry32 a) \<and>
   (\<exists>a'. snd (rawPoints ambient1 n (Mulberry32 a)) = Mulberry32 a')"
proof (induction n arbitrary: a)
  case 0
  show ?case by simp
next
  case (Suc n)
  let ?a2 = "snd (mulberry32_next (snd (mulberry32_next a)))"
  from Suc [of ?a2] show ?case
    by (auto simp: call_rnd_seeded split: prod.split)
qed

lemma runKMeans_seeded:
  "runKMeans engine_sort ambient1 pts k iters (Some (Mulberry32 a)) =
   runKMeans engine_sort ambient2 pts k iters (Some (Mulberry32 a))"
proof -
  have "(\<lambda>i. 0.5 - nth_draw ambient1 (Mulberry32 a) i) =
        (\<lambda>i. 0.5 - nth_draw ambient2 (Mulberry32 a) i)"
    using nth_draw_seeded [of ambient1 a _ ambient2] by auto
  then show ?thesis
    by (simp add: runKMeans_def)
qed

text \<open>The first value of the closure \<open>mulberry32(20250423)\<close>.\<close>

lemma mulberry32_first_value:
  "mulberry32_next 20250423 = (1830186351 / 4294967296, 1851816236)"
  by (simp add: mulberry32_next_def Let_def)

text \<open>
  Without a seeded closure the generator follows \<open>Math.random\<close>: with one point
  and one cluster, two different sequences give two different scatters.
\<close>

lemma lloydRounds_eight:
  "lloydRounds 8 pts k centres =
     lloydRounds (Suc (Suc (Suc (Suc (Suc (Suc (Suc (Suc 0)))))))) pts k centres"
  by (simp add: eval_nat_numeral)

lemma generatePoints_follows_Math_random:
  "generatePoints (\<lambda>c xs. xs) (\<lambda>t. 0) (Some (Suc 0)) (Some 1) None =
     Inr [\<lparr>x = 50, y = 50, id_num = 0, colour = None, clusterId = 0, isCorrect = None\<rparr>] \<and>
   generatePoints (\<lambda>c xs. xs) (\<lambda>t. 1 / 2) (Some (Suc 0)) (Some 1) None =
     Inr [\<lparr>x = 240, y = 160, id_num = 0, colour = None, clusterId = 0, isCorrect = None\<rparr>]"
  by (simp add: generatePoints_def runKMeans_def call_rnd_def slice0_def closestCentre_def
      clamp_def X_MIN_def X_MAX_def Y_MIN_def Y_MAX_def PULL_def lloydRounds_eight)

lemma generate_seed_only:
  "generate engine_sort ambient1 n k seed = generate engine_sort ambient2 n k seed"
proof -
  from rawPoints_seeded [of ambient1 n seed ambient2]
  obtain a' where raw: "rawPoints ambient1 n (Mulberry32 seed) = rawPoints ambient2 n (Mulberry32 seed)"
    and st: "snd (rawPoints ambient1 n (Mulberry32 seed)) = Mulberry32 a'"
    by blast
  obtain ps where r1: "rawPoints ambient1 n (Mulberry32 seed) = (ps, Mulberry32 a')"
    using st by (cases "rawPoints ambient1 n (Mulberry32 seed)") simp
  with raw have r2: "rawPoints ambient2 n (Mulberry32 seed) = (ps, Mulberry32 a')"
    by simp
  show ?thesis
    unfolding generate_def generatePoints_def
    by (simp add: r1 r2 runKMeans_seeded [of engine_sort ambient1 ps k "Some 8" a' ambient2])
qed

text \<open>
  Claim C9. Two invocations of the point generator with the same arguments and
  the same seed, in particular \<open>generate(10, 3, 20250423)\<close>, produce identical
  sequences: the same length and, at every position, the same coordinates and
  the same \<open>clusterId\<close>. The two invocations may find \<open>Math.random\<close> at
  different places of its sequence (\<open>ambient1\<close>, \<open>ambient2\<close>); each starts a new
  closure from the seed, and the engine's sort is the same for both.
\<close>

theorem generate_reproducible:
  "generate engine_sort ambient1 n k seed = generate engine_sort ambient2 n k seed \<and>
   generate engine_sort ambient1 10 3 20250423 = generate engine_sort ambient2 10 3 20250423 \<and>
   INITIAL_POINTS engine_sort ambient1 = INITIAL_POINTS engine_sort ambient2"
proof -
  have "INITIAL_POINTS engine_sort ambient = generate engine_sort ambient 10 CLUSTER_COUNT 20250423"
    for ambient
    by (simp add: INITIAL_POINTS_def generate_def)
  then show ?thesis
    using generate_seed_only by simp
qed

section \<open>Results are new objects, inputs are unchanged\<close>

subsection \<open>Stores that keep the caller's cells\<close>

lemma keeps_refl: "keeps h0 h0"
  by (simp add: keeps_def)

lemma keeps_length:
  assumes "keeps h0 h"
  shows "length h0 \<le> length h"
proof -
  from assms have "length (take (length h0) h) = length h0"
    unfolding keeps_def by (rule arg_cong)
  then show ?thesis
    by (simp add: min_def split: if_splits)
qed

lemma keeps_append:
  assumes "keeps h0 h"
  shows "keeps h0 (h @ cs)"
proof -
  from keeps_length [OF assms] have "take (length h0) (h @ cs) = take (length h0) h"
    by simp
  with assms show ?thesis
    by (simp only: keeps_def)
qed

lemma keeps_update: "keeps h0 h \<Longrightarrow> length h0 \<le> a \<Longrightarrow> keeps h0 (h[a := c])"
  unfolding keeps_def by (simp only: take_update_cancel)

lemma keeps_nth:
  assumes "keeps h0 h" and "a < length h0"
  shows "h ! a = h0 ! a"
proof -
  from assms(2) have "take (length h0) h ! a = h ! a"
    by simp
  with assms(1) show ?thesis
    by (simp add: keeps_def)
qed

lemma keeps_cell:
  assumes "keeps h0 h" and "a < length h0"
  shows "cell_at h a = cell_at h0 a"
  using keeps_length [OF assms(1)] assms(2) keeps_nth [OF assms]
  by (simp add: cell_at_def)

lemma keeps_trans:
  assumes "keeps h0 h" and "keeps h h'"
  shows "keeps h0 h'"
proof -
  from keeps_length [OF assms(1)]
  have "take (length h0) (take (length h) h') = take (length h0) h'"
    by (simp add: min_def)
  moreover from assms(2) have "take (length h) h' = h"
    by (simp only: keeps_def)
  moreover from assms(1) have "take (length h0) h = h0"
    by (simp only: keeps_def)
  ultimately show ?thesis
    by (simp only: keeps_def)
qed

lemma those_map_Some: "those (map Some vs) = Some vs"
  by (induction vs) simp_all

lemma those_Some_nth:
  "those os = Some vs \<Longrightarrow> length vs = length os \<and> (\<forall>i<length os. os ! i = Some (vs ! i))"
proof (induction os arbitrary: vs)
  case Nil
  then show ?case by simp
next
  case (Cons ob os)
  from Cons.prems obtain v vs' where ob: "ob = Some v" and os: "those os = Some vs'"
    and vs: "vs = v # vs'"
    by (cases ob; cases "those os") simp_all
  from Cons.IH [OF os] have len: "length vs' = length os"
    and each: "\<And>i. i < length os \<Longrightarrow> os ! i = Some (vs' ! i)"
    by simp_all
  have "(ob # os) ! i = Some (vs ! i)" if "i < length (ob # os)" for i
  proof (cases i)
    case 0
    then show ?thesis by (simp add: ob vs)
  next
    case (Suc j)
    with that have "j < length os" by simp
    from each [OF this] show ?thesis by (simp add: Suc vs)
  qed
  with len vs show ?case
    by simp
qed

text \<open>What a well-formed argument array gives when it is read in a later store.\<close>

lemma read_array_refs:
  assumes "read_array h a = Some refs"
  shows "refs_at h a = refs"
proof -
  from assms have a: "a < length h"
    by (simp add: read_array_def split: if_splits)
  with assms have "h ! a = RefArray refs"
    by (cases "h ! a") (simp_all add: read_array_def)
  with a show ?thesis
    by (simp add: refs_at_def cell_at_def)
qed

lemma read_list_facts:
  assumes "read_list sel h0 a = Some vs"
  shows "length (refs_at h0 a) = length vs"
    and "a < length h0"
    and "\<forall>i<length vs. refs_at h0 a ! i < length h0 \<and> sel (h0 ! (refs_at h0 a ! i)) = Some (vs ! i)"
proof -
  from assms obtain refs where refs: "read_array h0 a = Some refs"
    and th: "those (map (\<lambda>r. if r < length h0 then sel (h0 ! r) else None) refs) = Some vs"
    by (auto simp: read_list_def split: option.splits)
  from those_Some_nth [OF th] have len: "length vs = length refs"
    and each: "\<forall>i<length refs. (if refs ! i < length h0 then sel (h0 ! (refs ! i)) else None) = Some (vs ! i)"
    by simp_all
  show "length (refs_at h0 a) = length vs"
    using len read_array_refs [OF refs] by simp
  show "a < length h0"
    using refs by (simp add: read_array_def split: if_splits)
  show "\<forall>i<length vs. refs_at h0 a ! i < length h0 \<and> sel (h0 ! (refs_at h0 a ! i)) = Some (vs ! i)"
  proof (intro allI impI)
    fix i assume "i < length vs"
    with len each have "(if refs ! i < length h0 then sel (h0 ! (refs ! i)) else None) = Some (vs ! i)"
      by simp
    then show "refs_at h0 a ! i < length h0 \<and> sel (h0 ! (refs_at h0 a ! i)) = Some (vs ! i)"
      unfolding read_array_refs [OF refs] by (simp split: if_splits)
  qed
qed

lemma keeps_refs:
  assumes "read_list sel h0 a = Some vs" and "keeps h0 h"
  shows "refs_at h a = refs_at h0 a"
  using keeps_cell [OF assms(2) read_list_facts(2) [OF assms(1)]]
  by (simp add: refs_at_def)

lemma keeps_elem:
  assumes "read_list as_point h0 a = Some points" and "keeps h0 h" and "i < length points"
  shows "elem h a i = points ! i"
proof -
  let ?r = "refs_at h0 a ! i"
  from read_list_facts [OF assms(1)] assms(3)
  have len: "length (refs_at h0 a) = length points" and r: "?r < length h0"
    and v: "as_point (h0 ! ?r) = Some (points ! i)"
    by simp_all
  from v have "h0 ! ?r = PointObj (points ! i)"
    by (cases "h0 ! ?r") simp_all
  with r have "cell_at h0 ?r = Some (PointObj (points ! i))"
    by (simp add: cell_at_def)
  then have "point_at h ?r = points ! i"
    using keeps_cell [OF assms(2) r] by (simp add: point_at_def)
  then show ?thesis
    using len assms(3) keeps_refs [OF assms(1,2)] by (simp add: elem_def)
qed


subsection \<open>Reading cells\<close>

lemma cell_at_append: "a < length h \<Longrightarrow> cell_at (h @ cs) a = cell_at h a"
  by (simp add: cell_at_def nth_append)

lemma cell_at_new: "cell_at (h @ [c]) (length h) = Some c"
  by (simp add: cell_at_def)

lemma cell_at_update_same: "a < length h \<Longrightarrow> cell_at (h[a := c]) a = Some c"
  by (simp add: cell_at_def)

lemma cell_at_update_other: "a \<noteq> b \<Longrightarrow> cell_at (h[b := c]) a = cell_at h a"
  by (simp add: cell_at_def)

lemma cell_at_bound: "cell_at h a = Some c \<Longrightarrow> a < length h"
  by (simp add: cell_at_def split: if_splits)

lemma cell_at_nth: "cell_at h a = Some c \<Longrightarrow> h ! a = c"
  by (simp add: cell_at_def split: if_splits)

lemma cell_at_written: "cell_at h a = Some c \<Longrightarrow> cell_at (h[a := c']) a = Some c'"
  by (simp add: cell_at_def split: if_splits)

lemma cell_at_kept: "cell_at h a = Some c \<Longrightarrow> cell_at (h @ cs) a = Some c"
  by (simp add: cell_at_def nth_append split: if_splits)

lemma refs_at_cell: "cell_at h a = Some (RefArray rs) \<Longrightarrow> refs_at h a = rs"
  by (simp add: refs_at_def)

lemma nums_at_cell: "cell_at h a = Some (NumArray ns) \<Longrightarrow> nums_at h a = ns"
  by (simp add: nums_at_def)


lemma set_at_cell: "cell_at h a = Some (IndexSet js) \<Longrightarrow> set_at h a = js"
  by (simp add: set_at_def)

lemma keeps_kept:
  assumes "keeps h0 h" and "cell_at h0 a = Some c"
  shows "cell_at h a = Some c"
  using keeps_cell [OF assms(1) cell_at_bound [OF assms(2)]] assms(2) by simp

lemma keeps_alloc: "keeps h0 h \<Longrightarrow> keeps h0 (fst (alloc h c))"
  by (simp add: alloc_def keeps_append)

lemma read_list_length:
  assumes "read_list sel h0 a = Some vs" and "keeps h0 h"
  shows "length (refs_at h a) = length vs"
  using keeps_refs [OF assms] read_list_facts(1) [OF assms(1)] by simp

subsection \<open>Arrays built by \<open>map\<close> and \<open>Array.from\<close>\<close>

lemma holds_init:
  assumes "keeps h0 h"
  shows "holds h0 (h @ [RefArray []]) (length h) mk []"
  using assms keeps_length [OF assms] by (simp add: holds_def keeps_append cell_at_new)

lemma holds_push:
  assumes "holds h0 h arr mk vs"
  shows "holds h0 (push_ref (h @ [mk v]) arr (length h)) arr mk (vs @ [v])"
proof -
  from assms obtain refs where k: "keeps h0 h" and lo: "length h0 \<le> arr"
    and arr: "cell_at h arr = Some (RefArray refs)"
    and all: "list_all2 (\<lambda>r v. length h0 \<le> r \<and> r \<noteq> arr \<and> cell_at h r = Some (mk v)) refs vs"
    by (auto simp: holds_def)
  let ?h1 = "h @ [mk v]"
  let ?h2 = "?h1[arr := RefArray (refs @ [length h])]"
  from arr have bound: "arr < length h"
    by (rule cell_at_bound)
  from arr have "refs_at ?h1 arr = refs"
    by (intro refs_at_cell cell_at_kept)
  then have eq: "push_ref ?h1 arr (length h) = ?h2"
    by (simp add: push_ref_def)
  from k have "keeps h0 ?h1"
    by (rule keeps_append)
  then have k2: "keeps h0 ?h2"
    using lo by (rule keeps_update)
  from bound have arr2: "cell_at ?h2 arr = Some (RefArray (refs @ [length h]))"
    by (simp add: cell_at_update_same)
  have old: "list_all2 (\<lambda>r v. length h0 \<le> r \<and> r \<noteq> arr \<and> cell_at ?h2 r = Some (mk v)) refs vs"
    using all
  proof (rule list_all2_mono)
    fix r w assume a: "length h0 \<le> r \<and> r \<noteq> arr \<and> cell_at h r = Some (mk w)"
    then have "cell_at ?h2 r = cell_at ?h1 r"
      by (simp add: cell_at_update_other)
    also from a have "\<dots> = Some (mk w)"
      by (simp add: cell_at_kept)
    finally show "length h0 \<le> r \<and> r \<noteq> arr \<and> cell_at ?h2 r = Some (mk w)"
      using a by simp
  qed
  have "cell_at ?h2 (length h) = cell_at ?h1 (length h)"
    using bound by (simp add: cell_at_update_other)
  then have new: "length h0 \<le> length h \<and> length h \<noteq> arr \<and> cell_at ?h2 (length h) = Some (mk v)"
    using keeps_length [OF k] bound by (simp add: cell_at_new)
  from old new
  have "list_all2 (\<lambda>r v. length h0 \<le> r \<and> r \<noteq> arr \<and> cell_at ?h2 r = Some (mk v))
          (refs @ [length h]) (vs @ [v])"
    by (intro list_all2_appendI) simp_all
  with k2 lo arr2 show ?thesis
    unfolding eq holds_def by blast
qed

lemma holds_keeps: "holds h0 h arr mk vs \<Longrightarrow> keeps h0 h"
  by (simp add: holds_def)

lemma holds_bound: "holds h0 h arr mk vs \<Longrightarrow> arr < length h \<and> length h0 \<le> arr"
  by (auto simp: holds_def dest: cell_at_bound)

lemma holds_length: "holds h0 h arr mk vs \<Longrightarrow> length (refs_at h arr) = length vs"
  by (auto simp: holds_def refs_at_cell dest: list_all2_lengthD)

lemma holds_other:
  assumes "holds h0 h arr mk vs" and "a < length h" and "a \<noteq> arr"
  shows "cell_at (push_ref (h @ [c]) arr r) a = cell_at h a"
  using assms(2,3) by (simp add: push_ref_def cell_at_update_other cell_at_append)

lemma holds_read:
  assumes "holds h0 h arr mk vs" and sel: "\<And>v. sel (mk v) = Some v"
  shows "read_list sel h arr = Some vs" and "fresh_result h0 h arr"
proof -
  from assms(1) obtain refs where k: "keeps h0 h" and lo: "length h0 \<le> arr"
    and arr: "cell_at h arr = Some (RefArray refs)"
    and all: "list_all2 (\<lambda>r v. length h0 \<le> r \<and> r \<noteq> arr \<and> cell_at h r = Some (mk v)) refs vs"
    by (auto simp: holds_def)
  from arr have ra: "read_array h arr = Some refs"
    using cell_at_bound [OF arr] cell_at_nth [OF arr] by (simp add: read_array_def)
  have "map (\<lambda>r. if r < length h then sel (h ! r) else None) refs = map Some vs"
  proof (rule nth_equalityI)
    show "length (map (\<lambda>r. if r < length h then sel (h ! r) else None) refs) = length (map Some vs)"
      using list_all2_lengthD [OF all] by simp
  next
    fix i assume "i < length (map (\<lambda>r. if r < length h then sel (h ! r) else None) refs)"
    then have i: "i < length refs"
      by simp
    from list_all2_nthD [OF all i] have c: "cell_at h (refs ! i) = Some (mk (vs ! i))"
      by simp
    from cell_at_bound [OF c] cell_at_nth [OF c] i list_all2_lengthD [OF all]
    show "map (\<lambda>r. if r < length h then sel (h ! r) else None) refs ! i = map Some vs ! i"
      by (simp add: sel)
  qed
  then show "read_list sel h arr = Some vs"
    by (simp add: read_list_def ra those_map_Some)
  have "list_all (\<lambda>r. length h0 \<le> r) refs"
    unfolding list_all_length
  proof (intro allI impI)
    fix i assume "i < length refs"
    from list_all2_nthD [OF all this] show "length h0 \<le> refs ! i"
      by simp
  qed
  with k lo ra show "fresh_result h0 h arr"
    by (simp add: fresh_result_def)
qed

subsection \<open>The neighbourhood query on the store\<close>




subsection \<open>The final \<open>map\<close> of the two clusterers\<close>

lemma mapLabeledLoop_holds:
  assumes rl: "read_list as_point h0 points_ref = Some points"
  shows "holds h0 h result LabeledPointObj acc \<Longrightarrow>
         (case labels_ref of None \<Rightarrow> True
          | Some l \<Rightarrow> l \<noteq> result \<and> cell_at h l = Some (NumArray labels)) \<Longrightarrow>
         \<forall>i\<in>set js. i < length points \<Longrightarrow>
         holds h0 (mapLabeledLoop h points_ref labels_ref result js) result LabeledPointObj
           (acc @ map (\<lambda>i. \<lparr>x = x (points ! i), y = y (points ! i),
                            cluster = (case labels_ref of None \<Rightarrow> 0 | Some l \<Rightarrow> labels ! i)\<rparr>) js)"
proof (induction js arbitrary: h acc)
  case Nil
  then show ?case by simp
next
  case (Cons i js)
  let ?v = "\<lparr>x = x (points ! i), y = y (points ! i),
             cluster = (case labels_ref of None \<Rightarrow> 0 | Some l \<Rightarrow> labels ! i)\<rparr>"
  let ?h2 = "push_ref (h @ [LabeledPointObj ?v]) result (length h)"
  from Cons.prems(3) have i: "i < length points" and js: "\<forall>i\<in>set js. i < length points"
    by simp_all
  have e: "elem h points_ref i = points ! i"
    by (rule keeps_elem [OF rl holds_keeps [OF Cons.prems(1)] i])
  have lab: "(case labels_ref of None \<Rightarrow> 0 | Some l \<Rightarrow> nums_at h l ! i) =
             (case labels_ref of None \<Rightarrow> 0 | Some l \<Rightarrow> labels ! i)"
    using Cons.prems(2) by (cases labels_ref) (simp_all add: nums_at_cell)
  have step: "mapLabeledLoop h points_ref labels_ref result (i # js) =
              mapLabeledLoop ?h2 points_ref labels_ref result js"
    by (simp add: alloc_def e lab)
  have h2: "holds h0 ?h2 result LabeledPointObj (acc @ [?v])"
    by (rule holds_push [OF Cons.prems(1)])
  have l2: "case labels_ref of None \<Rightarrow> True
            | Some l \<Rightarrow> l \<noteq> result \<and> cell_at ?h2 l = Some (NumArray labels)"
  proof (cases labels_ref)
    case None
    then show ?thesis by simp
  next
    case (Some l)
    with Cons.prems(2) have ne: "l \<noteq> result" and c: "cell_at h l = Some (NumArray labels)"
      by simp_all
    from holds_other [OF Cons.prems(1) cell_at_bound [OF c] ne] c ne Some show ?thesis
      by simp
  qed
  from Cons.IH [OF h2 l2 js] show ?case
    unfolding step by simp
qed

lemma mapLabeled_store_holds:
  assumes rl: "read_list as_point h0 points_ref = Some points"
    and k: "keeps h0 h"
    and l: "case labels_ref of None \<Rightarrow> True | Some l \<Rightarrow> cell_at h l = Some (NumArray labels)"
  shows "holds h0 (fst (mapLabeled_store h points_ref labels_ref))
           (snd (mapLabeled_store h points_ref labels_ref)) LabeledPointObj
           (map (\<lambda>i. \<lparr>x = x (points ! i), y = y (points ! i),
                       cluster = (case labels_ref of None \<Rightarrow> 0 | Some l \<Rightarrow> labels ! i)\<rparr>)
              [0..<length points])"
proof -
  let ?h1 = "h @ [RefArray []]"
  have h1: "holds h0 ?h1 (length h) LabeledPointObj []"
    using k by (rule holds_init)
  have len: "length (refs_at ?h1 points_ref) = length points"
    by (rule read_list_length [OF rl keeps_append [OF k]])
  have l1: "case labels_ref of None \<Rightarrow> True
            | Some l \<Rightarrow> l \<noteq> length h \<and> cell_at ?h1 l = Some (NumArray labels)"
  proof (cases labels_ref)
    case None
    then show ?thesis by simp
  next
    case (Some l)
    with l have c: "cell_at h l = Some (NumArray labels)"
      by simp
    from cell_at_bound [OF c] cell_at_kept [OF c] Some show ?thesis
      by simp
  qed
  have "holds h0 (mapLabeledLoop ?h1 points_ref labels_ref (length h) [0..<length points])
          (length h) LabeledPointObj
          ([] @ map (\<lambda>i. \<lparr>x = x (points ! i), y = y (points ! i),
                       cluster = (case labels_ref of None \<Rightarrow> 0 | Some l \<Rightarrow> labels ! i)\<rparr>)
              [0..<length points])"
    by (rule mapLabeledLoop_holds [OF rl h1 l1]) simp
  then show ?thesis
    by (simp add: mapLabeled_store_def alloc_def len)
qed

lemma mapLabeled_store_result:
  assumes rl: "read_list as_point h0 points_ref = Some points"
    and k: "keeps h0 h"
    and l: "case labels_ref of None \<Rightarrow> True | Some l \<Rightarrow> cell_at h l = Some (NumArray labels)"
    and res: "mapLabeled_store h points_ref labels_ref = (h', a')"
  shows "fresh_result h0 h' a'"
    and "read_list as_labeled h' a' =
           Some (map (\<lambda>i. \<lparr>x = x (points ! i), y = y (points ! i),
                       cluster = (case labels_ref of None \<Rightarrow> 0 | Some l \<Rightarrow> labels ! i)\<rparr>)
              [0..<length points])"
proof -
  from mapLabeled_store_holds [OF rl k l] res
  have h: "holds h0 h' a' LabeledPointObj
           (map (\<lambda>i. \<lparr>x = x (points ! i), y = y (points ! i),
                       cluster = (case labels_ref of None \<Rightarrow> 0 | Some l \<Rightarrow> labels ! i)\<rparr>)
              [0..<length points])"
    by simp
  show "fresh_result h0 h' a'"
    by (rule holds_read(2) [OF h, of as_labeled]) simp
  show "read_list as_labeled h' a' =
           Some (map (\<lambda>i. \<lparr>x = x (points ! i), y = y (points ! i),
                       cluster = (case labels_ref of None \<Rightarrow> 0 | Some l \<Rightarrow> labels ! i)\<rparr>)
              [0..<length points])"
    by (rule holds_read(1) [OF h]) simp
qed

lemma same_coords_map:
  "same_coords points (map (\<lambda>i. \<lparr>x = x (points ! i), y = y (points ! i), cluster = f i\<rparr>)
                         [0..<length points])"
  by (simp add: same_coords_def)

subsection \<open>The validator on the store\<close>









subsection \<open>The density clusterer on the store\<close>

lemma setLabel_cell:
  assumes "cell_at h l = Some (NumArray labels)"
  shows "setLabel h l i v = h[l := NumArray (labels[i := v])]"
    and "cell_at (setLabel h l i v) l = Some (NumArray (labels[i := v]))"
proof -
  show eq: "setLabel h l i v = h[l := NumArray (labels[i := v])]"
    by (simp add: setLabel_def nums_at_cell [OF assms])
  show "cell_at (setLabel h l i v) l = Some (NumArray (labels[i := v]))"
    unfolding eq by (rule cell_at_written [OF assms])
qed








subsection \<open>The initial centroids on the store\<close>

lemma copyLoop_holds:
  "holds h0 h result PointObj acc \<Longrightarrow>
   \<exists>vs. holds h0 (copyLoop h src result js) result PointObj vs \<and>
        length vs = length acc + length js"
proof (induction js arbitrary: h acc)
  case Nil
  then show ?case by auto
next
  case (Cons i js)
  let ?v = "\<lparr>x = x (elem h src i), y = y (elem h src i)\<rparr>"
  have "holds h0 (push_ref (h @ [PointObj ?v]) result (length h)) result PointObj (acc @ [?v])"
    by (rule holds_push [OF Cons.prems])
  from Cons.IH [OF this] show ?case
    by (simp add: alloc_def)
qed

lemma refs_at_fresh_array: "refs_at (h @ [RefArray []]) a = refs_at h a"
  by (simp add: refs_at_def cell_at_def nth_append)

lemma copyPoints_store_holds:
  assumes "keeps h0 h"
  shows "\<exists>vs. holds h0 (fst (copyPoints_store h src)) (snd (copyPoints_store h src)) PointObj vs \<and>
           length vs = length (refs_at h src)"
  using copyLoop_holds [OF holds_init [OF assms, where mk = PointObj],
      where src = src and js = "[0..<length (refs_at h src)]"]
  by (simp add: copyPoints_store_def alloc_def refs_at_fresh_array)

lemma draws_Suc: "draw ` {..<Suc t} = insert (draw t) (draw ` {..<t})"
  by (simp add: lessThan_Suc)

lemma draws_mono: "t \<le> T \<Longrightarrow> card (draw ` {..<t}) \<le> card (draw ` {..<T::nat})"
  by (intro card_mono image_mono) auto

lemma pickCentroids_store_step:
  assumes cs: "cell_at h cs = Some (RefArray refs)"
    and seen: "cell_at h seen = Some (IndexSet sn)"
    and ne: "cs \<noteq> seen"
  shows "refs_at h cs = refs" and "set_at h seen = sn"
    and "push_ref (h[seen := IndexSet sn'] @ [c]) cs (length h) =
           (h[seen := IndexSet sn'] @ [c])[cs := RefArray (refs @ [length h])]"
    and "cell_at ((h[seen := IndexSet sn'] @ [c])[cs := RefArray (refs @ [length h])]) cs =
           Some (RefArray (refs @ [length h]))"
    and "cell_at ((h[seen := IndexSet sn'] @ [c])[cs := RefArray (refs @ [length h])]) seen =
           Some (IndexSet sn')"
proof -
  show "refs_at h cs = refs"
    by (rule refs_at_cell [OF cs])
  show "set_at h seen = sn"
    by (rule set_at_cell [OF seen])
  have c1: "cell_at (h[seen := IndexSet sn']) cs = Some (RefArray refs)"
    using cs ne by (simp add: cell_at_update_other)
  have c2: "cell_at (h[seen := IndexSet sn'] @ [c]) cs = Some (RefArray refs)"
    by (rule cell_at_kept [OF c1])
  show "push_ref (h[seen := IndexSet sn'] @ [c]) cs (length h) =
           (h[seen := IndexSet sn'] @ [c])[cs := RefArray (refs @ [length h])]"
    by (simp add: push_ref_def refs_at_cell [OF c2])
  show "cell_at ((h[seen := IndexSet sn'] @ [c])[cs := RefArray (refs @ [length h])]) cs =
           Some (RefArray (refs @ [length h]))"
    by (rule cell_at_written [OF c2])
  have "cell_at (h[seen := IndexSet sn'] @ [c]) seen = Some (IndexSet sn')"
    by (rule cell_at_kept [OF cell_at_written [OF seen]])
  then show "cell_at ((h[seen := IndexSet sn'] @ [c])[cs := RefArray (refs @ [length h])]) seen =
           Some (IndexSet sn')"
    using ne by (simp add: cell_at_update_other)
qed

lemma pickCentroids_store_unfold:
  assumes cs: "cell_at h cs = Some (RefArray refs)"
    and seen: "cell_at h seen = Some (IndexSet sn)"
    and ne: "cs \<noteq> seen"
  shows "pickCentroids_store draw h points_ref k t cs seen =
         (if int (length refs) < k
          then if draw t \<notin> sn
               then pickCentroids_store draw
                      ((h[seen := IndexSet (insert (draw t) sn)] @
                          [PointObj (spread_elem (h[seen := IndexSet (insert (draw t) sn)])
                                       points_ref (draw t))])
                         [cs := RefArray (refs @ [length h])])
                      points_ref k (Suc t) cs seen
               else pickCentroids_store draw h points_ref k (Suc t) cs seen
          else Some h)"
  apply (subst pickCentroids_store.simps)
  apply (simp only: pickCentroids_store_step(1,2) [OF cs seen ne] Let_def alloc_def prod.case
      length_list_update pickCentroids_store_step(3) [OF cs seen ne])
  done

text \<open>Whenever the seeding loop ends, it has seen \<open>k\<close> distinct indices.\<close>

lemma pickCentroids_store_result:
  assumes "pickCentroids_store draw h points_ref k t cs seen = Some h'"
  shows "\<forall>refs. keeps h0 h \<and> length h0 \<le> cs \<and> length h0 \<le> seen \<and> cs \<noteq> seen \<and>
           cell_at h cs = Some (RefArray refs) \<and>
           cell_at h seen = Some (IndexSet (draw ` {..<t})) \<and>
           length refs = card (draw ` {..<t}) \<and> int (length refs) \<le> k \<longrightarrow>
           keeps h0 h' \<and> (\<exists>refs'. cell_at h' cs = Some (RefArray refs') \<and> int (length refs') = k) \<and>
           (\<exists>T. k \<le> int (card (draw ` {..<T})))"
proof (rule pickCentroids_store.raw_induct
    [where P = "\<lambda>draw h points_ref k t cs seen h'.
        \<forall>refs. keeps h0 h \<and> length h0 \<le> cs \<and> length h0 \<le> seen \<and> cs \<noteq> seen \<and>
           cell_at h cs = Some (RefArray refs) \<and>
           cell_at h seen = Some (IndexSet (draw ` {..<t})) \<and>
           length refs = card (draw ` {..<t}) \<and> int (length refs) \<le> k \<longrightarrow>
           keeps h0 h' \<and> (\<exists>refs'. cell_at h' cs = Some (RefArray refs') \<and> int (length refs') = k) \<and>
           (\<exists>T. k \<le> int (card (draw ` {..<T})))",
     OF _ assms], goal_cases)
  case (1 pick draw h points_ref k t cs seen h')
  show ?case
  proof (intro allI impI, elim conjE)
    fix refs
    assume k: "keeps h0 h" and lo: "length h0 \<le> cs" "length h0 \<le> seen" and ne: "cs \<noteq> seen"
      and cs: "cell_at h cs = Some (RefArray refs)"
      and seen: "cell_at h seen = Some (IndexSet (draw ` {..<t}))"
      and len: "length refs = card (draw ` {..<t})" and le: "int (length refs) \<le> k"
    note st = pickCentroids_store_step [OF cs seen ne]
    let ?goal = "keeps h0 h' \<and> (\<exists>refs'. cell_at h' cs = Some (RefArray refs') \<and> int (length refs') = k) \<and>
           (\<exists>T. k \<le> int (card (draw ` {..<T})))"
    show ?goal
    proof (cases "int (length refs) < k")
      case False
      with 1(2) have "h' = h"
        by (simp add: st(1))
      moreover from False le have "int (length refs) = k"
        by simp
      ultimately show ?thesis
        using k cs len by auto
    next
      case True
      show ?thesis
      proof (cases "draw t \<in> draw ` {..<t}")
        case seen_before: True
        with True 1(2) have run: "pick draw h points_ref k (Suc t) cs seen = Some h'"
          by (simp add: st(1,2))
        from seen_before have same: "draw ` {..<Suc t} = draw ` {..<t}"
          unfolding draws_Suc by (rule insert_absorb)
        from 1(1) [OF run] k lo ne cs seen len le show ?thesis
          unfolding same by blast
      next
        case new: False
        let ?h2 = "(h[seen := IndexSet (insert (draw t) (draw ` {..<t}))] @
                     [PointObj (spread_elem (h[seen := IndexSet (insert (draw t) (draw ` {..<t}))])
                                  points_ref (draw t))])
                    [cs := RefArray (refs @ [length h])]"
        from True new 1(2) have run: "pick draw ?h2 points_ref k (Suc t) cs seen = Some h'"
          by (simp add: st(1,2) Let_def alloc_def st(3))
        have k2: "keeps h0 ?h2"
          by (intro keeps_update keeps_append k lo)
        have cs2: "cell_at ?h2 cs = Some (RefArray (refs @ [length h]))"
          by (rule st(4))
        have seen2: "cell_at ?h2 seen = Some (IndexSet (draw ` {..<Suc t}))"
          unfolding draws_Suc by (rule st(5))
        have len2: "length (refs @ [length h]) = card (draw ` {..<Suc t})"
          unfolding draws_Suc using new len by simp
        have le2: "int (length (refs @ [length h])) \<le> k"
          using True by simp
        from 1(1) [OF run] k2 lo ne cs2 seen2 len2 le2 show ?thesis
          by blast
      qed
    qed
  qed
qed

text \<open>The seeding loop ends as soon as the draws contain \<open>k\<close> distinct indices.\<close>

lemma pickCentroids_store_returns:
  assumes enough: "k \<le> int (card (draw ` {..<T}))"
  shows "cs \<noteq> seen \<Longrightarrow> cell_at h cs = Some (RefArray refs) \<Longrightarrow>
         cell_at h seen = Some (IndexSet (draw ` {..<t})) \<Longrightarrow>
         length refs = card (draw ` {..<t}) \<Longrightarrow>
         \<exists>h'. pickCentroids_store draw h points_ref k t cs seen = Some h'"
proof (induction "T - t" arbitrary: t h refs)
  case 0
  then have "T \<le> t"
    by simp
  from draws_mono [OF this, of draw] enough 0(5) have "\<not> int (length refs) < k"
    by simp
  then show ?case
    by (simp add: pickCentroids_store_unfold [OF 0(3,4,2)])
next
  case (Suc d)
  note un = pickCentroids_store_unfold [OF Suc(4,5,3)]
  show ?case
  proof (cases "int (length refs) < k")
    case False
    then show ?thesis
      by (simp add: un)
  next
    case True
    from Suc(2) have d: "d = T - Suc t"
      by simp
    note st = pickCentroids_store_step [OF Suc(4,5,3)]
    show ?thesis
    proof (cases "draw t \<in> draw ` {..<t}")
      case seen_before: True
      then have same: "draw ` {..<Suc t} = draw ` {..<t}"
        unfolding draws_Suc by (rule insert_absorb)
      have seen2: "cell_at h seen = Some (IndexSet (draw ` {..<Suc t}))"
        unfolding same by (rule Suc(5))
      have len2: "length refs = card (draw ` {..<Suc t})"
        unfolding same by (rule Suc(6))
      from Suc(1) [OF d Suc(3,4) seen2 len2] True seen_before show ?thesis
        by (simp add: un)
    next
      case new: False
      let ?h2 = "(h[seen := IndexSet (insert (draw t) (draw ` {..<t}))] @
                   [PointObj (spread_elem (h[seen := IndexSet (insert (draw t) (draw ` {..<t}))])
                                points_ref (draw t))])
                  [cs := RefArray (refs @ [length h])]"
      have cs2: "cell_at ?h2 cs = Some (RefArray (refs @ [length h]))"
        by (rule st(4))
      have seen2: "cell_at ?h2 seen = Some (IndexSet (draw ` {..<Suc t}))"
        unfolding draws_Suc by (rule st(5))
      have len2: "length (refs @ [length h]) = card (draw ` {..<Suc t})"
        unfolding draws_Suc using new Suc(6) by simp
      from Suc(1) [OF d Suc(3) cs2 seen2 len2] True new show ?thesis
        by (simp add: un)
    qed
  qed
qed

lemma seedCentroids_store_returns:
  assumes "k \<le> int (card (draw ` {..<T}))"
  shows "\<exists>r. seedCentroids_store draw h points_ref k = Some r"
proof -
  let ?h2 = "h @ [RefArray []] @ [IndexSet {}]"
  have cs: "cell_at ?h2 (length h) = Some (RefArray [])"
    by (simp add: cell_at_def nth_append)
  have seen: "cell_at ?h2 (Suc (length h)) = Some (IndexSet (draw ` {..<0}))"
    by (simp add: cell_at_def nth_append)
  from pickCentroids_store_returns [OF assms _ cs seen, where points_ref = points_ref]
  obtain h' where "pickCentroids_store draw ?h2 points_ref k 0 (length h) (Suc (length h)) = Some h'"
    by auto
  then show ?thesis
    by (simp add: seedCentroids_store_def alloc_def)
qed

lemma seedCentroids_store_result:
  assumes run: "seedCentroids_store draw h points_ref k = Some (h', c)"
    and k: "keeps h0 h" and pos: "0 < k"
  shows "keeps h0 h'" and "length h0 \<le> c"
    and "\<exists>refs. cell_at h' c = Some (RefArray refs) \<and> int (length refs) = k"
    and "\<exists>T. k \<le> int (card (draw ` {..<T}))"
proof -
  let ?h2 = "h @ [RefArray []] @ [IndexSet {}]"
  from run have c: "c = length h"
    and pick: "pickCentroids_store draw ?h2 points_ref k 0 (length h) (Suc (length h)) = Some h'"
    by (auto simp: seedCentroids_store_def alloc_def split: option.splits)
  have k2: "keeps h0 ?h2"
    by (rule keeps_append [OF k])
  have cs: "cell_at ?h2 (length h) = Some (RefArray [])"
    by (simp add: cell_at_def nth_append)
  have seen: "cell_at ?h2 (Suc (length h)) = Some (IndexSet (draw ` {..<0}))"
    by (simp add: cell_at_def nth_append)
  from keeps_length [OF k] have lo: "length h0 \<le> length h" "length h0 \<le> Suc (length h)"
    by simp_all
  from pickCentroids_store_result [OF pick, of h0] k2 lo cs seen pos
  have res: "keeps h0 h' \<and>
      (\<exists>refs'. cell_at h' (length h) = Some (RefArray refs') \<and> int (length refs') = k) \<and>
      (\<exists>T. k \<le> int (card (draw ` {..<T})))"
    by simp
  from res show "keeps h0 h'" by simp
  from lo c show "length h0 \<le> c" by simp
  from res c show "\<exists>refs. cell_at h' c = Some (RefArray refs) \<and> int (length refs) = k" by simp
  from res show "\<exists>T. k \<le> int (card (draw ` {..<T}))" by simp
qed

lemma initCentroids_store_returns:
  assumes "(\<exists>ic. initialCentroids = Some ic \<and> int (length (refs_at h ic)) = k) \<or>
           (\<exists>T. k \<le> int (card (draw ` {..<T})))"
  shows "\<exists>r. initCentroids_store draw h points_ref k initialCentroids = Some r"
proof (cases "\<exists>ic. initialCentroids = Some ic \<and> int (length (refs_at h ic)) = k")
  case True
  then show ?thesis
    by (auto simp: initCentroids_store_def)
next
  case False
  with assms obtain T where "k \<le> int (card (draw ` {..<T}))"
    by blast
  from seedCentroids_store_returns [OF this, of h points_ref] False show ?thesis
    by (cases initialCentroids) (auto simp: initCentroids_store_def)
qed

lemma initCentroids_store_result:
  assumes run: "initCentroids_store draw h points_ref k initialCentroids = Some (h', c)"
    and k: "keeps h0 h" and pos: "0 < k"
  shows "keeps h0 h'" and "length h0 \<le> c"
    and "\<exists>refs. cell_at h' c = Some (RefArray refs) \<and> int (length refs) = k"
    and "(\<exists>ic. initialCentroids = Some ic \<and> int (length (refs_at h ic)) = k) \<or>
         (\<exists>T. k \<le> int (card (draw ` {..<T})))"
proof -
  have "keeps h0 h' \<and> length h0 \<le> c \<and>
        (\<exists>refs. cell_at h' c = Some (RefArray refs) \<and> int (length refs) = k) \<and>
        ((\<exists>ic. initialCentroids = Some ic \<and> int (length (refs_at h ic)) = k) \<or>
         (\<exists>T. k \<le> int (card (draw ` {..<T}))))"
  proof (cases "\<exists>ic. initialCentroids = Some ic \<and> int (length (refs_at h ic)) = k")
    case True
    then obtain ic where ic: "initialCentroids = Some ic" and len: "int (length (refs_at h ic)) = k"
      by blast
    with run have cp: "copyPoints_store h ic = (h', c)"
      by (simp add: initCentroids_store_def)
    from copyPoints_store_holds [OF k, of ic] cp obtain vs
      where h: "holds h0 h' c PointObj vs" and lv: "length vs = length (refs_at h ic)"
      by auto
    from h obtain refs where "cell_at h' c = Some (RefArray refs)" and "length refs = length vs"
      by (auto simp: holds_def dest: list_all2_lengthD)
    with lv len holds_keeps [OF h] holds_bound [OF h] True show ?thesis
      by auto
  next
    case False
    with run have "seedCentroids_store draw h points_ref k = Some (h', c)"
      by (cases initialCentroids) (auto simp: initCentroids_store_def split: if_splits)
    from seedCentroids_store_result [OF this k pos] show ?thesis
      by blast
  qed
  then show "keeps h0 h'" and "length h0 \<le> c"
    and "\<exists>refs. cell_at h' c = Some (RefArray refs) \<and> int (length refs) = k"
    and "(\<exists>ic. initialCentroids = Some ic \<and> int (length (refs_at h ic)) = k) \<or>
         (\<exists>T. k \<le> int (card (draw ` {..<T})))"
    by blast+
qed

subsection \<open>The iteration of the partitioning clusterer on the store\<close>

lemma working_keeps:
  assumes "working h0 h l c n m" and "keeps h h'"
  shows "working h0 h' l c n m"
  using assms unfolding working_def
  by (auto intro: keeps_trans keeps_kept)

lemma working_setLabel:
  assumes "working h0 h l c n m"
  shows "working h0 (setLabel h l i v) l c n m"
proof -
  from assms obtain labels refs where k: "keeps h0 h" and lo: "length h0 \<le> l" "length h0 \<le> c"
    and ne: "l \<noteq> c" and l: "cell_at h l = Some (NumArray labels)" and n: "length labels = n"
    and c: "cell_at h c = Some (RefArray refs)" and m: "length refs = m"
    by (auto simp: working_def)
  have eq: "setLabel h l i v = h[l := NumArray (labels[i := v])]"
    by (rule setLabel_cell(1) [OF l])
  have "keeps h0 (h[l := NumArray (labels[i := v])])"
    by (rule keeps_update [OF k lo(1)])
  moreover have "cell_at (h[l := NumArray (labels[i := v])]) l = Some (NumArray (labels[i := v]))"
    by (rule cell_at_written [OF l])
  moreover have "cell_at (h[l := NumArray (labels[i := v])]) c = Some (RefArray refs)"
    using c ne by (simp add: cell_at_update_other)
  ultimately show ?thesis
    unfolding eq working_def using lo ne n m by auto
qed

lemma working_setCentroid:
  assumes "working h0 h l c n m"
  shows "working h0 (h[c := RefArray ((refs_at h c)[idx := r])]) l c n m"
proof -
  from assms obtain labels refs where k: "keeps h0 h" and lo: "length h0 \<le> l" "length h0 \<le> c"
    and ne: "l \<noteq> c" and l: "cell_at h l = Some (NumArray labels)" and n: "length labels = n"
    and c: "cell_at h c = Some (RefArray refs)" and m: "length refs = m"
    by (auto simp: working_def)
  have eq: "refs_at h c = refs"
    by (rule refs_at_cell [OF c])
  have "keeps h0 (h[c := RefArray (refs[idx := r])])"
    by (rule keeps_update [OF k lo(2)])
  moreover have "cell_at (h[c := RefArray (refs[idx := r])]) c = Some (RefArray (refs[idx := r]))"
    by (rule cell_at_written [OF c])
  moreover have "cell_at (h[c := RefArray (refs[idx := r])]) l = Some (NumArray labels)"
    using l ne by (simp add: cell_at_update_other)
  ultimately show ?thesis
    unfolding eq working_def using lo ne n m by auto
qed

lemma nearestIdx_range:
  assumes "centroids \<noteq> []"
  shows "0 \<le> nearestIdx distFn centroids nrm p \<and>
         nearestIdx distFn centroids nrm p < int (length centroids)"
  using nearestIdx_first_minimum [OF assms, of distFn nrm p] by auto

lemma assignLoop_store_working:
  assumes pos: "0 < m"
  shows "working h0 h l c n m \<Longrightarrow>
         \<forall>i\<in>A. 0 \<le> nums_at h l ! i \<and> nums_at h l ! i < int m \<Longrightarrow>
         \<forall>i\<in>set js. i < n \<Longrightarrow>
         working h0 (fst (assignLoop_store distFn h points_ref nrm c l js ch)) l c n m \<and>
         (\<forall>i\<in>A \<union> set js.
            0 \<le> nums_at (fst (assignLoop_store distFn h points_ref nrm c l js ch)) l ! i \<and>
            nums_at (fst (assignLoop_store distFn h points_ref nrm c l js ch)) l ! i < int m)"
proof (induction js arbitrary: h ch A)
  case Nil
  then show ?case by simp
next
  case (Cons i js)
  from Cons.prems(1) obtain labels refs
    where l: "cell_at h l = Some (NumArray labels)" and n: "length labels = n"
      and c: "cell_at h c = Some (RefArray refs)" and m: "length refs = m"
    by (auto simp: working_def)
  from Cons.prems(3) have i: "i < n" and js: "\<forall>i\<in>set js. i < n"
    by simp_all
  let ?minIdx = "nearestIdx distFn (map (point_at h) (refs_at h c)) nrm (elem h points_ref i)"
  have nl: "nums_at h l = labels"
    by (rule nums_at_cell [OF l])
  from m pos have "map (point_at h) (refs_at h c) \<noteq> []"
    by (auto simp: refs_at_cell [OF c])
  from nearestIdx_range [OF this, of distFn nrm "elem h points_ref i"] m
  have range: "0 \<le> ?minIdx \<and> ?minIdx < int m"
    by (simp add: refs_at_cell [OF c])
  show ?case
  proof (cases "label_at labels i = Some ?minIdx")
    case True
    with i n have "labels ! i = ?minIdx"
      by (simp add: label_at_def)
    with range Cons.prems(2) have inv: "\<forall>j\<in>insert i A. 0 \<le> nums_at h l ! j \<and> nums_at h l ! j < int m"
      by (simp add: nl)
    from Cons.IH [OF Cons.prems(1) inv js, of ch] True show ?thesis
      by (simp add: nl Let_def)
  next
    case False
    let ?h1 = "setLabel h l i ?minIdx"
    have w1: "working h0 ?h1 l c n m"
      by (rule working_setLabel [OF Cons.prems(1)])
    have n1: "nums_at ?h1 l = labels[i := ?minIdx]"
      by (rule nums_at_cell [OF setLabel_cell(2) [OF l]])
    have inv: "\<forall>j\<in>insert i A. 0 \<le> nums_at ?h1 l ! j \<and> nums_at ?h1 l ! j < int m"
    proof
      fix j assume j: "j \<in> insert i A"
      show "0 \<le> nums_at ?h1 l ! j \<and> nums_at ?h1 l ! j < int m"
      proof (cases "j = i")
        case True
        with i n range show ?thesis
          by (simp add: n1)
      next
        case False
        with j Cons.prems(2) show ?thesis
          by (simp add: n1 nl)
      qed
    qed
    from Cons.IH [OF w1 inv js, of True] False show ?thesis
      by (simp add: nl Let_def)
  qed
qed

lemma newSumsLoop_holds:
  "holds hb h su SumObj acc \<Longrightarrow>
   \<exists>vs. holds hb (newSumsLoop h su m) su SumObj vs \<and> length vs = length acc + m"
proof (induction m arbitrary: h acc)
  case 0
  then show ?case by auto
next
  case (Suc m)
  let ?v = "\<lparr>x = 0, y = 0, n_count = 0\<rparr>"
  have "holds hb (push_ref (h @ [SumObj ?v]) su (length h)) su SumObj (acc @ [?v])"
    by (rule holds_push [OF Suc.prems])
  from Suc.IH [OF this] show ?case
    by (simp add: alloc_def)
qed

lemma newSums_store_holds:
  "\<exists>vs. holds h (fst (newSums_store h k)) (snd (newSums_store h k)) SumObj vs \<and> length vs = nat k"
  using newSumsLoop_holds [OF holds_init [OF keeps_refl, where mk = SumObj], where m = "nat k"]
  by (simp add: newSums_store_def alloc_def)

lemma sumLoop_store_runs:
  assumes l: "cell_at hb l = Some (NumArray labels)"
  shows "keeps hb h \<Longrightarrow> cell_at h su = Some (RefArray refs) \<Longrightarrow>
         \<forall>r\<in>set refs. length hb \<le> r \<and> r \<noteq> su \<Longrightarrow>
         \<forall>i\<in>set js. 0 \<le> labels ! i \<and> labels ! i < int (length refs) \<Longrightarrow>
         \<exists>h'. sumLoop_store h points_ref l su js = Inr h' \<and> keeps hb h' \<and>
              cell_at h' su = Some (RefArray refs)"
proof (induction js arbitrary: h)
  case Nil
  then show ?case by simp
next
  case (Cons idx js)
  from Cons.prems(4) have range: "0 \<le> labels ! idx \<and> labels ! idx < int (length refs)"
    and js: "\<forall>i\<in>set js. 0 \<le> labels ! i \<and> labels ! i < int (length refs)"
    by simp_all
  have nl: "nums_at h l = labels"
    by (rule nums_at_cell [OF keeps_kept [OF Cons.prems(1) l]])
  have rs: "refs_at h su = refs"
    by (rule refs_at_cell [OF Cons.prems(2)])
  let ?s = "refs ! nat (labels ! idx)"
  let ?e = "sum_at h ?s"
  let ?p = "elem h points_ref idx"
  let ?h1 = "h[?s := SumObj \<lparr>x = x ?e + x ?p, y = y ?e + y ?p, n_count = n_count ?e + 1\<rparr>]"
  from range have "nat (labels ! idx) < length refs"
    by linarith
  then have "?s \<in> set refs"
    by (rule nth_mem)
  with Cons.prems(3) have s: "length hb \<le> ?s" "?s \<noteq> su"
    by simp_all
  have k1: "keeps hb ?h1"
    by (rule keeps_update [OF Cons.prems(1) s(1)])
  have su1: "cell_at ?h1 su = Some (RefArray refs)"
    using Cons.prems(2) s(2) by (simp add: cell_at_update_other)
  from Cons.IH [OF k1 su1 Cons.prems(3) js] range show ?case
    by (simp add: nl rs Let_def)
qed

lemma moveLoop_store_working:
  "working h0 h l c n m \<Longrightarrow> working h0 (moveLoop_store h c su js) l c n m"
proof (induction js arbitrary: h)
  case Nil
  then show ?case by simp
next
  case (Cons idx js)
  let ?s = "sum_at h (refs_at h su ! idx)"
  show ?case
  proof (cases "0 < n_count ?s")
    case False
    with Cons.IH [OF Cons.prems] show ?thesis
      by (simp add: Let_def)
  next
    case True
    let ?h1 = "h @ [PointObj \<lparr>x = x ?s / real (n_count ?s), y = y ?s / real (n_count ?s)\<rparr>]"
    have "working h0 ?h1 l c n m"
      by (rule working_keeps [OF Cons.prems keeps_append [OF keeps_refl]])
    then have "working h0 (?h1[c := RefArray ((refs_at ?h1 c)[idx := length h])]) l c n m"
      by (rule working_setCentroid)
    from Cons.IH [OF this] True show ?thesis
      by (simp add: Let_def alloc_def)
  qed
qed

lemma lloyd_store_runs:
  assumes rl: "read_list as_point h0 points_ref = Some points" and pos: "0 < k"
  shows "working h0 h l c (length points) (nat k) \<Longrightarrow>
         \<exists>h'. lloyd_store distFn mi h points_ref k nrm c l = Inr h' \<and>
              working h0 h' l c (length points) (nat k)"
proof (induction mi arbitrary: h)
  case 0
  then show ?case by simp
next
  case (Suc mi)
  let ?n = "length points"
  from Suc.prems have k: "keeps h0 h"
    by (simp add: working_def)
  have len: "length (refs_at h points_ref) = ?n"
    by (rule read_list_length [OF rl k])
  obtain h1 ch where a: "assignLoop_store distFn h points_ref nrm c l [0..<?n] False = (h1, ch)"
    by (cases "assignLoop_store distFn h points_ref nrm c l [0..<?n] False")
  from pos have m: "0 < nat k"
    by simp
  from assignLoop_store_working [OF m Suc.prems, of "{}" "[0..<?n]" distFn points_ref nrm False] a
  have w1: "working h0 h1 l c ?n (nat k)"
    and range: "\<forall>i<?n. 0 \<le> nums_at h1 l ! i \<and> nums_at h1 l ! i < int (nat k)"
    by simp_all
  show ?case
  proof (cases ch)
    case False
    with w1 show ?thesis
      by (simp add: len a)
  next
    case True
    obtain h2 su where ns: "newSums_store h1 k = (h2, su)"
      by (cases "newSums_store h1 k")
    from newSums_store_holds [of h1 k] ns obtain vs
      where h2: "holds h1 h2 su SumObj vs" and lv: "length vs = nat k"
      by auto
    from h2 obtain refs where k12: "keeps h1 h2" and su: "cell_at h2 su = Some (RefArray refs)"
      and all: "list_all2 (\<lambda>r v. length h1 \<le> r \<and> r \<noteq> su \<and> cell_at h2 r = Some (SumObj v)) refs vs"
      by (auto simp: holds_def)
    from list_all2_lengthD [OF all] lv have lr: "length refs = nat k"
      by simp
    have fresh: "\<forall>r\<in>set refs. length h1 \<le> r \<and> r \<noteq> su"
    proof
      fix r assume "r \<in> set refs"
      then obtain j where j: "j < length refs" and r: "r = refs ! j"
        by (auto simp: in_set_conv_nth)
      from list_all2_nthD [OF all j] r show "length h1 \<le> r \<and> r \<noteq> su"
        by simp
    qed
    from w1 obtain labels where l1: "cell_at h1 l = Some (NumArray labels)" and ll: "length labels = ?n"
      by (auto simp: working_def)
    have n1: "nums_at h1 l = labels"
      by (rule nums_at_cell [OF l1])
    have n2: "nums_at h2 l = labels"
      by (rule nums_at_cell [OF keeps_kept [OF k12 l1]])
    have inr: "\<forall>i\<in>set [0..<?n]. 0 \<le> labels ! i \<and> labels ! i < int (length refs)"
      using range by (simp add: n1 lr)
    from sumLoop_store_runs [OF l1 k12 su fresh inr, of points_ref]
    obtain h3 where sl: "sumLoop_store h2 points_ref l su [0..<?n] = Inr h3"
      and k13: "keeps h1 h3" and su3: "cell_at h3 su = Some (RefArray refs)"
      by blast
    have w3: "working h0 h3 l c ?n (nat k)"
      by (rule working_keeps [OF w1 k13])
    let ?h4 = "moveLoop_store h3 c su [0..<length (refs_at h3 su)]"
    have "working h0 ?h4 l c ?n (nat k)"
      by (rule moveLoop_store_working [OF w3])
    from Suc.IH [OF this] obtain h' where "lloyd_store distFn mi ?h4 points_ref k nrm c l = Inr h'"
      and "working h0 h' l c ?n (nat k)"
      by blast
    with True show ?thesis
      by (simp add: len a ns n2 ll sl)
  qed
qed

subsection \<open>The partitioning clusterer on the store\<close>

lemma kMeans_store_nonpositive:
  assumes rl: "read_list as_point h0 points_ref = Some points" and k: "k \<le> 0"
  shows "\<exists>h' a' out. kMeans_store distFn draw h0 points_ref k nrm initialCentroids maxIter =
             Some (Inr (h', a')) \<and>
           fresh_result h0 h' a' \<and> read_list as_labeled h' a' = Some out \<and> same_coords points out"
proof -
  obtain h' a' where m: "mapLabeled_store h0 points_ref None = (h', a')"
    by (cases "mapLabeled_store h0 points_ref None")
  have l: "case None of None \<Rightarrow> True | Some l \<Rightarrow> cell_at h0 l = Some (NumArray [])"
    by simp
  from mapLabeled_store_result [OF rl keeps_refl l m] k m show ?thesis
    by (auto simp: kMeans_store_def same_coords_map)
qed

lemma kMeans_store_seeded:
  assumes rl: "read_list as_point h0 points_ref = Some points" and pos: "0 < k"
    and init: "initCentroids_store draw h0 points_ref k initialCentroids = Some (h1, c)"
  shows "\<exists>h' a' out. kMeans_store distFn draw h0 points_ref k nrm initialCentroids maxIter =
             Some (Inr (h', a')) \<and>
           fresh_result h0 h' a' \<and> read_list as_labeled h' a' = Some out \<and> same_coords points out"
proof -
  let ?n = "length points"
  let ?h2 = "h1 @ [NumArray (replicate ?n 0)]"
  note res = initCentroids_store_result [OF init keeps_refl pos]
  from res(3) obtain refs where c: "cell_at h1 c = Some (RefArray refs)" and lr: "int (length refs) = k"
    by blast
  have len1: "length (refs_at h1 points_ref) = ?n"
    by (rule read_list_length [OF rl res(1)])
  from cell_at_bound [OF c] have ne: "length h1 \<noteq> c"
    by simp
  have w: "working h0 ?h2 (length h1) c ?n (nat k)"
    unfolding working_def
    using keeps_append [OF res(1)] keeps_length [OF res(1)] res(2) ne cell_at_kept [OF c] lr
    by (auto simp: cell_at_new)
  from lloyd_store_runs [OF rl pos w, of distFn maxIter nrm]
  obtain h3 where ll: "lloyd_store distFn maxIter ?h2 points_ref k nrm c (length h1) = Inr h3"
    and w3: "working h0 h3 (length h1) c ?n (nat k)"
    by blast
  from w3 obtain labels where k3: "keeps h0 h3" and l3: "cell_at h3 (length h1) = Some (NumArray labels)"
    by (auto simp: working_def)
  obtain h' a' where m: "mapLabeled_store h3 points_ref (Some (length h1)) = (h', a')"
    by (cases "mapLabeled_store h3 points_ref (Some (length h1))")
  have l: "case Some (length h1) of None \<Rightarrow> True | Some l \<Rightarrow> cell_at h3 l = Some (NumArray labels)"
    using l3 by simp
  have "kMeans_store distFn draw h0 points_ref k nrm initialCentroids maxIter = Some (Inr (h', a'))"
    using pos by (simp add: kMeans_store_def init alloc_def len1 ll m)
  with mapLabeled_store_result [OF rl k3 l m] show ?thesis
    by (auto simp: same_coords_map)
qed


lemma kMeans_store_returns_iff:
  assumes rl: "read_list as_point h0 points_ref = Some points"
  shows "(\<exists>r. kMeans_store distFn draw h0 points_ref k nrm initialCentroids maxIter = Some r) \<longleftrightarrow>
         k \<le> 0 \<or>
         (\<exists>ic. initialCentroids = Some ic \<and> int (length (refs_at h0 ic)) = k) \<or>
         (\<exists>T. k \<le> int (card (draw ` {..<T})))"
proof (cases "k \<le> 0")
  case True
  with kMeans_store_nonpositive [OF rl True, of distFn draw nrm initialCentroids maxIter]
  show ?thesis
    by auto
next
  case False
  then have pos: "0 < k"
    by simp
  show ?thesis
  proof
    assume "\<exists>r. kMeans_store distFn draw h0 points_ref k nrm initialCentroids maxIter = Some r"
    with False obtain h1 c
      where init: "initCentroids_store draw h0 points_ref k initialCentroids = Some (h1, c)"
      by (cases "initCentroids_store draw h0 points_ref k initialCentroids")
         (auto simp: kMeans_store_def)
    from initCentroids_store_result(4) [OF init keeps_refl pos]
    show "k \<le> 0 \<or>
         (\<exists>ic. initialCentroids = Some ic \<and> int (length (refs_at h0 ic)) = k) \<or>
         (\<exists>T. k \<le> int (card (draw ` {..<T})))"
      by blast
  next
    assume "k \<le> 0 \<or>
         (\<exists>ic. initialCentroids = Some ic \<and> int (length (refs_at h0 ic)) = k) \<or>
         (\<exists>T. k \<le> int (card (draw ` {..<T})))"
    with False have "(\<exists>ic. initialCentroids = Some ic \<and> int (length (refs_at h0 ic)) = k) \<or>
         (\<exists>T. k \<le> int (card (draw ` {..<T})))"
      by blast
    from initCentroids_store_returns [OF this, of points_ref] obtain h1 c
      where init: "initCentroids_store draw h0 points_ref k initialCentroids = Some (h1, c)"
      by auto
    from kMeans_store_seeded [OF rl pos init, of distFn nrm maxIter]
    show "\<exists>r. kMeans_store distFn draw h0 points_ref k nrm initialCentroids maxIter = Some r"
      by blast
  qed
qed

subsection \<open>The three functions and the caller's data\<close>


text \<open>
  Two consequences of \<open>kMeans_store_returns_iff\<close>: with one cluster the first
  draw ends the seeding, and with more clusters than \<open>max(1, points.length)\<close>
  the seeding never ends.
\<close>

lemma kMeans_store_single_cluster:
  assumes "read_list as_point h0 points_ref = Some points" and "k \<le> 1"
  shows "\<exists>r. kMeans_store distFn draw h0 points_ref k nrm initialCentroids maxIter = Some r"
proof -
  have "card (draw ` {..<Suc 0}) = 1"
    by (simp add: lessThan_Suc)
  with assms(2) have "\<exists>T. k \<le> int (card (draw ` {..<T}))"
    by (intro exI [of _ "Suc 0"]) simp
  then show ?thesis
    unfolding kMeans_store_returns_iff [OF assms(1)] by blast
qed





end
